theory Spec2Isabelle
  imports Complex_Main "HOL-Library.Multiset"
begin

section \<open>Beam-search utilities of \<^verbatim>\<open>graph_augmented_sum/model/beam_search.py\<close>\<close>

text \<open>
  The embedding follows the Python source function by function. Conventions:
  \<^item> a Python \<^verbatim>\<open>float\<close> (log-probabilities, attention weights) is a \<^typ>\<open>real\<close>:
    arithmetic and comparisons are exact, rounding and NaN are not modelled;
  \<^item> a token is an \<^typ>\<open>int\<close>, \<^verbatim>\<open>len\<close> is \<^const>\<open>length\<close>, and \<^verbatim>\<open>beam_size\<close> is an
    \<^typ>\<open>int\<close> as in Python (it may be zero or negative);
  \<^item> every exception the source can raise is a value \<open>Inl e\<close> of the result type;
  \<^item> the decoder state \<^verbatim>\<open>hists\<close> of a hypothesis is opaque to everything but packing
    and unpacking, so the record is polymorphic in it.
\<close>

datatype error = IndexError | ZeroDivisionError | ValueError | TypeError | RuntimeError

subsection \<open>\<^verbatim>\<open>class _Hypothesis\<close>\<close>

record 'st hypothesis =
  sequence :: "int list"
  logprob :: real
  hists :: 'st
  attns :: "real list list"
  coverage :: "real list option"

text \<open>
  \<^verbatim>\<open>self.coverage + attn.detach().cpu()\<close> on one-dimensional tensors: elementwise when the
  sizes agree, broadcast when one of them has size 1, a \<^verbatim>\<open>RuntimeError\<close> otherwise.
\<close>

definition tensor_add :: "real list \<Rightarrow> real list \<Rightarrow> error + real list" where
  "tensor_add xs ys =
     (if length xs = length ys then Inr (map2 (+) xs ys)
      else if length xs = 1 then Inr (map (\<lambda>y. hd xs + y) ys)
      else if length ys = 1 then Inr (map (\<lambda>x. x + hd ys) xs)
      else Inl RuntimeError)"

text \<open>
  \<^verbatim>\<open>extend_k\<close>: the \<^verbatim>\<open>if attn is None\<close> block computes \<^verbatim>\<open>attns\<close> and \<^verbatim>\<open>coverage\<close>, then
  the comprehension over \<^verbatim>\<open>enumerate(zip(topk, logprobs))\<close> builds the children.
\<close>

definition extend_attn ::
  "'st hypothesis \<Rightarrow> real list option \<Rightarrow> error + (real list list \<times> real list option)" where
  "extend_attn self attn =
     (case attn of
        None \<Rightarrow> Inr ([], coverage self)
      | Some a \<Rightarrow>
          (case coverage self of
             None \<Rightarrow> Inr (attns self @ [a], Some a)
           | Some c \<Rightarrow>
               (case tensor_add c a of
                  Inl e \<Rightarrow> Inl e
                | Inr s \<Rightarrow> Inr (attns self @ [a], Some s))))"

definition extend_k ::
  "'st hypothesis \<Rightarrow> int list \<Rightarrow> real list \<Rightarrow> 'st \<Rightarrow> real list option \<Rightarrow> real
     \<Rightarrow> error + 'st hypothesis list" where
  "extend_k self topk logprobs new_hists attn diverse =
     (case extend_attn self attn of
        Inl e \<Rightarrow> Inl e
      | Inr (new_attns, new_coverage) \<Rightarrow>
          Inr (map (\<lambda>(i, (t, lp)).
                     \<lparr>sequence = sequence self @ [t],
                      logprob = logprob self + lp - diverse * real i,
                      hists = new_hists,
                      attns = new_attns,
                      coverage = new_coverage\<rparr>)
                   (enumerate 0 (zip topk logprobs))))"

text \<open>
  \<^verbatim>\<open>__lt__\<close>: \<^verbatim>\<open>other.logprob/len(other.sequence) < self.logprob/len(self.sequence)\<close>.
  The left operand is evaluated first; a division by a zero length raises.
\<close>

definition hyp_lt :: "'st hypothesis \<Rightarrow> 'st hypothesis \<Rightarrow> error + bool" where
  "hyp_lt self other =
     (if sequence other = [] then Inl ZeroDivisionError
      else if sequence self = [] then Inl ZeroDivisionError
      else Inr (logprob other / real (length (sequence other))
                  < logprob self / real (length (sequence self))))"

definition init_beam :: "int \<Rightarrow> 'st \<Rightarrow> 'st hypothesis list" where
  "init_beam start h =
     [\<lparr>sequence = [start], logprob = 0, hists = h, attns = [], coverage = None\<rparr>]"

subsection \<open>\<^verbatim>\<open>best_sequence\<close>\<close>

text \<open>
  The function returns either the sequence alone or the pair of the sequence and the
  attention history; \<^verbatim>\<open>beam=None\<close> is \<open>None\<close>.
\<close>

datatype best = BestSeq "int list" | BestSeqAttns "int list" "real list list"

definition best_sequence ::
  "'st hypothesis list \<Rightarrow> 'st hypothesis list option \<Rightarrow> error + best" where
  "best_sequence finished beam =
     (case
        (case beam of
           None \<Rightarrow> (case finished of [] \<Rightarrow> Inl IndexError | f # _ \<Rightarrow> Inr f)
         | Some bm \<Rightarrow>
             (case finished of
                [] \<Rightarrow> (case bm of [] \<Rightarrow> Inl IndexError | b # _ \<Rightarrow> Inr b)
              | f # _ \<Rightarrow>
                  (case bm of
                     [] \<Rightarrow> Inl IndexError
                   | b # _ \<Rightarrow>
                       (case hyp_lt b f of
                          Inl e \<Rightarrow> Inl e
                        | Inr c \<Rightarrow> Inr (if c then f else b)))))
      of
        Inl e \<Rightarrow> Inl e
      | Inr best_beam \<Rightarrow>
          Inr (let best_seq = drop 1 (sequence best_beam)
               in if attns best_beam \<noteq> [] then BestSeqAttns best_seq (attns best_beam)
                  else BestSeq best_seq))"

subsection \<open>\<^verbatim>\<open>_has_repeat_tri\<close>\<close>

text \<open>
  \<^verbatim>\<open>range(len(grams)-2)\<close> is empty when the length is below 2, as the truncating
  subtraction on \<^typ>\<open>nat\<close> makes \<open>[0..<length grams - 2]\<close>. The keys of the
  \<^verbatim>\<open>Counter\<close> are the distinct trigrams, and \<^verbatim>\<open>cnt[g]\<close> is the number of occurrences.
\<close>

definition tri_grams :: "int list \<Rightarrow> int list list" where
  "tri_grams grams = map (\<lambda>i. take 3 (drop i grams)) [0..<length grams - 2]"

definition has_repeat_tri :: "int list \<Rightarrow> bool" where
  "has_repeat_tri grams =
     (let tg = tri_grams grams
      in \<not> list_all (\<lambda>g. count_list tg g \<le> 1) (remdups tg))"

subsection \<open>Scores and sorting\<close>

text \<open>
  \<^verbatim>\<open>length_wu\<close>: \<^verbatim>\<open>((5 + cur_len) / 6.0) ** alpha\<close>. The base is positive, so the power is
  \<^const>\<open>powr\<close>.
\<close>

definition length_wu :: "nat \<Rightarrow> real \<Rightarrow> real" where
  "length_wu cur_len alpha = ((5 + real cur_len) / 6) powr alpha"

definition wu_key :: "'st hypothesis \<Rightarrow> real" where
  "wu_key h = logprob h / length_wu (length (sequence h)) (9 / 10)"

definition mean_key :: "'st hypothesis \<Rightarrow> real" where
  "mean_key h = logprob h / real (length (sequence h))"

text \<open>
  \<^verbatim>\<open>sorted(xs, reverse=True, key=k)\<close>: CPython reverses the list, sorts it stably in
  ascending key order and reverses the result, so that the keys descend and elements
  with equal keys keep their original order.
\<close>

definition sorted_reverse :: "('a \<Rightarrow> real) \<Rightarrow> 'a list \<Rightarrow> 'a list" where
  "sorted_reverse k xs = rev (sort_key k (rev xs))"

text \<open>
  Sorting by \<^verbatim>\<open>h.logprob/len(h.sequence)\<close> computes every key first, and raises
  \<^verbatim>\<open>ZeroDivisionError\<close> when some sequence is empty.
\<close>

definition sorted_by_mean :: "'st hypothesis list \<Rightarrow> error + 'st hypothesis list" where
  "sorted_by_mean xs =
     (if list_ex (\<lambda>h. sequence h = []) xs then Inl ZeroDivisionError
      else Inr (sorted_reverse mean_key xs))"

subsection \<open>\<^verbatim>\<open>_clean_beam\<close> and \<^verbatim>\<open>_clean_beam_cnn\<close>\<close>

text \<open>
  The \<^verbatim>\<open>while\<close> loop of the \<^verbatim>\<open>else\<close> branch: \<^verbatim>\<open>new_beam[0]\<close> raises on an empty list.
\<close>

function ensure_beam_size :: "'a list \<Rightarrow> int \<Rightarrow> error + 'a list" where
  "ensure_beam_size new_beam beam_size =
     (if int (length new_beam) < beam_size
      then (case new_beam of
              [] \<Rightarrow> Inl IndexError
            | x # _ \<Rightarrow> ensure_beam_size (new_beam @ [x]) beam_size)
      else Inr new_beam)"
  by pat_completeness auto
termination
  by (relation "measure (\<lambda>(nb, bs). nat (bs - int (length nb)))") auto

declare ensure_beam_size.simps [simp del]

text \<open>
  The finished copy of a hypothesis, \<^verbatim>\<open>h.sequence[:-1]\<close> removing the end token. The cnn
  variant does not pass the coverage on, so the copy gets the default \<^verbatim>\<open>None\<close>.
\<close>

definition finished_hyp :: "'st hypothesis \<Rightarrow> 'st hypothesis" where
  "finished_hyp h = h\<lparr>sequence := butlast (sequence h)\<rparr>"

definition finished_hyp_cnn :: "'st hypothesis \<Rightarrow> 'st hypothesis" where
  "finished_hyp_cnn h = h\<lparr>sequence := butlast (sequence h), coverage := None\<rparr>"

text \<open>
  The \<^verbatim>\<open>for\<close> loop over the sorted candidates. The state is \<^verbatim>\<open>finished\<close>, \<^verbatim>\<open>new_beam\<close> and
  the candidates visited so far, as the loop left them: the source writes the sentinel
  into the candidate object itself, so the third list is where that write is seen when
  the candidate is then skipped. Leaving the loop by \<^verbatim>\<open>break\<close> returns at once; running
  out of candidates enters the \<^verbatim>\<open>else\<close> branch.
\<close>

fun clean_loop ::
  "int \<Rightarrow> int \<Rightarrow> bool \<Rightarrow> 'st hypothesis list \<Rightarrow> 'st hypothesis list \<Rightarrow> 'st hypothesis list
     \<Rightarrow> 'st hypothesis list
     \<Rightarrow> error + ('st hypothesis list \<times> 'st hypothesis list \<times> 'st hypothesis list)" where
  "clean_loop end_tok beam_size remove_tri finished new_beam seen [] =
     (case ensure_beam_size new_beam beam_size of
        Inl e \<Rightarrow> Inl e
      | Inr nb \<Rightarrow> Inr (finished, nb, seen))"
| "clean_loop end_tok beam_size remove_tri finished new_beam seen (h0 # hs) =
     (let h = (if remove_tri \<and> has_repeat_tri (sequence h0)
               then h0\<lparr>logprob := - 1000000000\<rparr> else h0)
      in if sequence h = [] then Inl IndexError
         else
           let finished' = (if last (sequence h) = end_tok
                            then finished @ [finished_hyp h] else finished);
               new_beam' = (if last (sequence h) = end_tok
                            then new_beam else new_beam @ [h])
           in if int (length new_beam') = beam_size
              then Inr (finished', new_beam', seen @ [h])
              else clean_loop end_tok beam_size remove_tri finished' new_beam'
                     (seen @ [h]) hs)"

fun clean_loop_cnn ::
  "int \<Rightarrow> int \<Rightarrow> bool \<Rightarrow> 'st hypothesis list \<Rightarrow> 'st hypothesis list \<Rightarrow> 'st hypothesis list
     \<Rightarrow> 'st hypothesis list
     \<Rightarrow> error + ('st hypothesis list \<times> 'st hypothesis list \<times> 'st hypothesis list)" where
  "clean_loop_cnn end_tok beam_size remove_tri finished new_beam seen [] =
     (case ensure_beam_size new_beam beam_size of
        Inl e \<Rightarrow> Inl e
      | Inr nb \<Rightarrow> Inr (finished, nb, seen))"
| "clean_loop_cnn end_tok beam_size remove_tri finished new_beam seen (h # hs) =
     (if remove_tri \<and> has_repeat_tri (sequence h)
      then clean_loop_cnn end_tok beam_size remove_tri finished new_beam
             (seen @ [h\<lparr>logprob := - 1000000000\<rparr>]) hs
      else if sequence h = [] then Inl IndexError
      else
        let finished' = (if last (sequence h) = end_tok
                         then finished @ [finished_hyp_cnn h] else finished);
            new_beam' = (if last (sequence h) = end_tok
                         then new_beam else new_beam @ [h])
        in if int (length new_beam') = beam_size
           then Inr (finished', new_beam', seen @ [h])
           else clean_loop_cnn end_tok beam_size remove_tri finished' new_beam'
                  (seen @ [h]) hs)"

text \<open>
  \<^verbatim>\<open>_clean_beam\<close> sorts the candidates by the Wu key (never a division by zero),
  \<^verbatim>\<open>_clean_beam_cnn\<close> by the plain mean (which raises on an empty sequence); both sort
  the finished list by the plain mean at the end. The source returns the pair
  \<^verbatim>\<open>finished, new_beam\<close>; the third component is the state in which the call leaves the
  candidates it has visited. The write to a candidate depends on its sequence alone, which
  never changes, so values stand for the objects. The appends to the caller's own
  \<^verbatim>\<open>finished\<close> list, which the source makes before it rebinds the name to the sorted copy,
  are not part of the result.
\<close>

definition clean_beam ::
  "'st hypothesis list \<Rightarrow> 'st hypothesis list \<Rightarrow> int \<Rightarrow> int \<Rightarrow> bool
     \<Rightarrow> error + ('st hypothesis list \<times> 'st hypothesis list \<times> 'st hypothesis list)" where
  "clean_beam finished beam end_tok beam_size remove_tri =
     (case clean_loop end_tok beam_size remove_tri finished [] []
             (sorted_reverse wu_key beam) of
        Inl e \<Rightarrow> Inl e
      | Inr (fin, new_beam, seen) \<Rightarrow>
          (case sorted_by_mean fin of
             Inl e \<Rightarrow> Inl e
           | Inr fin' \<Rightarrow> Inr (fin', new_beam, seen)))"

definition clean_beam_cnn ::
  "'st hypothesis list \<Rightarrow> 'st hypothesis list \<Rightarrow> int \<Rightarrow> int \<Rightarrow> bool
     \<Rightarrow> error + ('st hypothesis list \<times> 'st hypothesis list \<times> 'st hypothesis list)" where
  "clean_beam_cnn finished beam end_tok beam_size remove_tri =
     (case sorted_by_mean beam of
        Inl e \<Rightarrow> Inl e
      | Inr pool \<Rightarrow>
          (case clean_loop_cnn end_tok beam_size remove_tri finished [] [] pool of
             Inl e \<Rightarrow> Inl e
           | Inr (fin, new_beam, seen) \<Rightarrow>
               (case sorted_by_mean fin of
                  Inl e \<Rightarrow> Inl e
                | Inr fin' \<Rightarrow> Inr (fin', new_beam, seen))))"

text \<open>
  The candidate as the loop of \<^verbatim>\<open>_clean_beam\<close> leaves it: \<^verbatim>\<open>h.logprob = -1e9\<close> when
  \<^verbatim>\<open>remove_tri\<close> holds and the sequence repeats a trigram.
\<close>

definition sentinel :: "bool \<Rightarrow> 'st hypothesis \<Rightarrow> 'st hypothesis" where
  "sentinel remove_tri h =
     (if remove_tri \<and> has_repeat_tri (sequence h) then h\<lparr>logprob := - 1000000000\<rparr> else h)"

text \<open>
  A candidate that \<^verbatim>\<open>_clean_beam_cnn\<close> appends to the new beam when it visits it: no
  repeated trigram, and the last token is not the end token.
\<close>

definition kept :: "int \<Rightarrow> 'st hypothesis \<Rightarrow> bool" where
  "kept end_tok h \<longleftrightarrow> \<not> has_repeat_tri (sequence h) \<and> last (sequence h) \<noteq> end_tok"

subsection \<open>Tensors and decoder states\<close>

text \<open>
  A tensor is the nested list of its entries: a vector is a list, a matrix the list of
  its rows, a three-dimensional tensor the list of its matrices. The \<^verbatim>\<open>device\<close> moves of
  the source do not change values and are left out. A nested list does not record the
  trailing sizes of a tensor whose leading size is zero.

  The ranks are the ones the indexing expressions of \<^verbatim>\<open>_unpack_topk\<close> ask for. The state
  of one hypothesis is what \<^verbatim>\<open>_unpack_topk\<close> produces: the triple
  \<^verbatim>\<open>(h[:, i, :], c[:, i, :], out[i, :])\<close> of two matrices and a vector, or the single matrix
  \<^verbatim>\<open>hists[:, i, :]\<close>.
\<close>

datatype 'a hists =
    LstmHists "'a list list" "'a list list" "'a list"
  | TensorHists "'a list list"

text \<open>
  \<^verbatim>\<open>hyp.hists[i]\<close> is a component of the triple, or a row of the single matrix.
\<close>

datatype 'a part = Mat "'a list list" | Vec "'a list"

fun hists_index :: "'a hists \<Rightarrow> nat \<Rightarrow> error + 'a part" where
  "hists_index (LstmHists h c out) i =
     (if i = 0 then Inr (Mat h) else if i = 1 then Inr (Mat c)
      else if i = 2 then Inr (Vec out) else Inl IndexError)"
| "hists_index (TensorHists t) i =
     (if i < length t then Inr (Vec (t ! i)) else Inl IndexError)"

text \<open>
  A list comprehension whose element expression may raise: the first exception, in list
  order, is the result.
\<close>

fun collect :: "('e + 'a) list \<Rightarrow> 'e + 'a list" where
  "collect [] = Inr []"
| "collect (x # xs) =
     (case x of
        Inl e \<Rightarrow> Inl e
      | Inr v \<Rightarrow> (case collect xs of Inl e \<Rightarrow> Inl e | Inr vs \<Rightarrow> Inr (v # vs)))"

text \<open>
  \<^verbatim>\<open>torch.stack(ts, dim=0)\<close> and \<^verbatim>\<open>torch.stack(ts, dim=1)\<close>: a \<^verbatim>\<open>RuntimeError\<close> on an empty
  list and on tensors of different shapes; along \<open>dim=0\<close> the result lists the tensors,
  along \<open>dim=1\<close> entry \<open>l\<close> of the result lists entry \<open>l\<close> of every tensor. The parameter
  \<open>shape\<close> is \<^const>\<open>length\<close> for vectors and \<open>map length\<close> for matrices.
\<close>

definition stack_dim0 :: "('t \<Rightarrow> 's) \<Rightarrow> 't list \<Rightarrow> error + 't list" where
  "stack_dim0 shape ts =
     (if ts = [] then Inl RuntimeError
      else if list_ex (\<lambda>t. shape t \<noteq> shape (hd ts)) ts then Inl RuntimeError
      else Inr ts)"

definition stack_dim1 :: "('x list \<Rightarrow> 's) \<Rightarrow> 'x list list \<Rightarrow> error + 'x list list" where
  "stack_dim1 shape ts =
     (if ts = [] then Inl RuntimeError
      else if list_ex (\<lambda>t. shape t \<noteq> shape (hd ts)) ts then Inl RuntimeError
      else Inr (map (\<lambda>l. map (\<lambda>t. t ! l) ts) [0..<length (hd ts)]))"

datatype 'a stacked = Stacked3 "'a list list list" | Stacked2 "'a list list"

fun is_Mat :: "'a part \<Rightarrow> bool" where
  "is_Mat (Mat m) = True"
| "is_Mat (Vec v) = False"

fun the_Mat :: "'a part \<Rightarrow> 'a list list" where
  "the_Mat (Mat m) = m"
| "the_Mat (Vec v) = []"

fun the_Vec :: "'a part \<Rightarrow> 'a list" where
  "the_Vec (Vec v) = v"
| "the_Vec (Mat m) = []"

text \<open>
  \<^verbatim>\<open>torch.stack\<close> on a list of parts: tensors of different ranks have different shapes.
\<close>

definition stack_parts :: "nat \<Rightarrow> 'a part list \<Rightarrow> error + 'a stacked" where
  "stack_parts d xs =
     (if xs = [] then Inl RuntimeError
      else if list_all is_Mat xs then
        map_sum id Stacked3
          (if d = 0 then stack_dim0 (map length) (map the_Mat xs)
           else stack_dim1 (map length) (map the_Mat xs))
      else if list_all (\<lambda>x. \<not> is_Mat x) xs then
        map_sum id Stacked2
          (if d = 0 then stack_dim0 length (map the_Vec xs)
           else stack_dim1 length (map the_Vec xs))
      else Inl RuntimeError)"

text \<open>
  The batched decoder state, as the functions of this file pass it around:
  \<^item> \<open>Packed a b c\<close> is the nested pair \<^verbatim>\<open>((a, b), c)\<close> that \<^verbatim>\<open>pack_beam\<close> returns;
  \<^item> \<open>Tuple3 h c out\<close> is the triple \<^verbatim>\<open>(h, c, out)\<close> that \<^verbatim>\<open>_unpack_topk\<close> reads, with
    \<open>h\<close> and \<open>c\<close> of shape (layers, batch, dim) and \<open>out\<close> of shape (batch, dim);
  \<^item> \<open>Tensor t\<close> is a single tensor of three dimensions, the batch being the second.
\<close>

datatype 'a states =
    Packed "'a stacked" "'a stacked" "'a stacked"
  | Tuple3 "'a list list list" "'a list list list" "'a list list"
  | Tensor "'a list list list"

subsection \<open>\<^verbatim>\<open>pack_beam\<close>\<close>

definition last_token :: "'st hypothesis \<Rightarrow> error + int" where
  "last_token h = (if sequence h = [] then Inl IndexError else Inr (last (sequence h)))"

fun is_TensorHists :: "'a hists \<Rightarrow> bool" where
  "is_TensorHists (TensorHists t) = True"
| "is_TensorHists (LstmHists h c out) = False"

fun the_TensorHists :: "'a hists \<Rightarrow> 'a list list" where
  "the_TensorHists (TensorHists t) = t"
| "the_TensorHists (LstmHists h c out) = []"

text \<open>
  \<^verbatim>\<open>torch.stack([hyp.hists[i] for hyp in hyps], dim=d)\<close>: the comprehension first, then
  the stacking.
\<close>

definition stack_hists_part :: "'a hists hypothesis list \<Rightarrow> nat \<Rightarrow> nat \<Rightarrow> error + 'a stacked" where
  "stack_hists_part hyps i d =
     (case collect (map (\<lambda>hyp. hists_index (hists hyp) i) hyps) of
        Inl e \<Rightarrow> Inl e
      | Inr xs \<Rightarrow> stack_parts d xs)"

text \<open>
  With \<^verbatim>\<open>use_t5\<close>, \<^verbatim>\<open>torch.stack([hyp.hists for hyp in hyps], dim=1)\<close> rejects a tuple with
  a \<^verbatim>\<open>TypeError\<close> before it looks at the shapes. Without it, the three parts are stacked
  along the dimensions \<open>1\<close>, \<open>1\<close> and \<open>0\<close> and returned as \<^verbatim>\<open>((hists[0], hists[1]), hists[2])\<close>.
\<close>

definition pack_beam :: "'a hists hypothesis list \<Rightarrow> bool \<Rightarrow> error + (int list \<times> 'a states)" where
  "pack_beam hyps use_t5 =
     (case collect (map last_token hyps) of
        Inl e \<Rightarrow> Inl e
      | Inr token \<Rightarrow>
          if use_t5 then
            (if list_ex (\<lambda>hyp. \<not> is_TensorHists (hists hyp)) hyps then Inl TypeError
             else
               (case stack_dim1 (map length) (map (\<lambda>hyp. the_TensorHists (hists hyp)) hyps) of
                  Inl e \<Rightarrow> Inl e
                | Inr s \<Rightarrow> Inr (token, Tensor s)))
          else
            (case stack_hists_part hyps 0 1 of
               Inl e \<Rightarrow> Inl e
             | Inr h0 \<Rightarrow>
                 (case stack_hists_part hyps 1 1 of
                    Inl e \<Rightarrow> Inl e
                  | Inr h1 \<Rightarrow>
                      (case stack_hists_part hyps 2 0 of
                         Inl e \<Rightarrow> Inl e
                       | Inr h2 \<Rightarrow> Inr (token, Packed h0 h1 h2)))))"

subsection \<open>\<^verbatim>\<open>_unpack_topk\<close>\<close>

text \<open>
  \<^verbatim>\<open>t[:, i, :]\<close> raises when \<open>i\<close> is not below the size of the second dimension;
  \<^verbatim>\<open>t[i, :]\<close> and \<^verbatim>\<open>attn[i]\<close> raise when \<open>i\<close> is not below the size of the first.
\<close>

definition select_mid :: "'x list list \<Rightarrow> nat \<Rightarrow> error + 'x list" where
  "select_mid t i =
     (if list_ex (\<lambda>row. length row \<le> i) t then Inl IndexError
      else Inr (map (\<lambda>row. row ! i) t))"

definition select_row :: "'x list \<Rightarrow> nat \<Rightarrow> error + 'x" where
  "select_row t i = (if i < length t then Inr (t ! i) else Inl IndexError)"

definition slice_lstm ::
  "'a list list list \<Rightarrow> 'a list list list \<Rightarrow> 'a list list \<Rightarrow> nat \<Rightarrow> error + 'a hists" where
  "slice_lstm h c out i =
     (case select_mid h i of
        Inl e \<Rightarrow> Inl e
      | Inr hi \<Rightarrow>
          (case select_mid c i of
             Inl e \<Rightarrow> Inl e
           | Inr ci \<Rightarrow>
               (case select_row out i of
                  Inl e \<Rightarrow> Inl e
                | Inr oi \<Rightarrow> Inr (LstmHists hi ci oi))))"

text \<open>
  The branch on \<^verbatim>\<open>len(hists) == 3\<close>. A triple has length 3 and the nested pair of
  \<^verbatim>\<open>pack_beam\<close> length 2; the length of a tensor is its first size. A single tensor whose
  first size is 3 therefore takes the first branch, where \<^verbatim>\<open>hists[0][:, i, :]\<close> indexes a
  matrix with three indices and raises \<^verbatim>\<open>IndexError\<close>; a nested pair takes the second
  branch, where \<^verbatim>\<open>hists[:, i, :]\<close> indexes a tuple with a tuple and raises \<^verbatim>\<open>TypeError\<close>.
  Neither is evaluated when \<^verbatim>\<open>range(beam)\<close> is empty.
\<close>

definition unpack_hists :: "'a states \<Rightarrow> nat \<Rightarrow> error + 'a hists list" where
  "unpack_hists hs beam =
     (case hs of
        Tuple3 h c out \<Rightarrow> collect (map (slice_lstm h c out) [0..<beam])
      | Tensor t \<Rightarrow>
          if length t = 3 then (if beam = 0 then Inr [] else Inl IndexError)
          else collect (map (\<lambda>i. map_sum id TensorHists (select_mid t i)) [0..<beam])
      | Packed a b c \<Rightarrow> if beam = 0 then Inr [] else Inl TypeError)"

text \<open>
  The result is a triple when \<^verbatim>\<open>attn\<close> is \<^verbatim>\<open>None\<close> and a quadruple otherwise: the fourth
  component of the model is \<open>None\<close> for the triple.
\<close>

definition unpack_topk ::
  "int list list \<Rightarrow> real list list \<Rightarrow> 'a states \<Rightarrow> real list list option
     \<Rightarrow> error + (int list list \<times> real list list \<times> 'a hists list \<times> real list list option)" where
  "unpack_topk topk lp hs attn =
     (let beam = length topk
      in case unpack_hists hs beam of
           Inl e \<Rightarrow> Inl e
         | Inr k_hists \<Rightarrow>
             (case attn of
                None \<Rightarrow> Inr (topk, lp, k_hists, None)
              | Some a \<Rightarrow>
                  (case collect (map (select_row a) [0..<beam]) of
                     Inl e \<Rightarrow> Inl e
                   | Inr as \<Rightarrow> Inr (topk, lp, k_hists, Some as))))"

subsection \<open>\<^verbatim>\<open>next_search_beam\<close> and \<^verbatim>\<open>next_search_beam_cnn\<close>\<close>

text \<open>
  The comprehension
  \<^verbatim>\<open>[h.extend_k(topks[i], lps[i], hists_list[i], attns[i], diverse) for i, h in enumerate(beam)]\<close>:
  an index beyond one of the lists raises \<^verbatim>\<open>IndexError\<close>.
\<close>

definition extend_beam ::
  "'st hypothesis list \<Rightarrow> int list list \<Rightarrow> real list list \<Rightarrow> 'st list \<Rightarrow> real list list \<Rightarrow> real
     \<Rightarrow> error + 'st hypothesis list list" where
  "extend_beam beam topks lps hists_list as diverse =
     collect (map (\<lambda>(i, h).
                if i < length topks \<and> i < length lps \<and> i < length hists_list \<and> i < length as
                then extend_k h (topks ! i) (lps ! i) (hists_list ! i) (Some (as ! i)) diverse
                else Inl IndexError)
              (enumerate 0 beam))"

text \<open>
  Both functions unpack the result of \<^verbatim>\<open>_unpack_topk\<close> into four names, which raises
  \<^verbatim>\<open>ValueError\<close> on the triple returned for \<^verbatim>\<open>attn=None\<close>. They return the pair
  \<^verbatim>\<open>finished, beam\<close>; the pool of candidates is local to the call.
\<close>

definition next_search_beam ::
  "'a hists hypothesis list \<Rightarrow> int \<Rightarrow> 'a hists hypothesis list \<Rightarrow> int \<Rightarrow> int list list
     \<Rightarrow> real list list \<Rightarrow> 'a states \<Rightarrow> real list list option \<Rightarrow> real
     \<Rightarrow> error + ('a hists hypothesis list \<times> 'a hists hypothesis list)" where
  "next_search_beam beam beam_size finished end_tok topk lp hs attn diverse =
     (case unpack_topk topk lp hs attn of
        Inl e \<Rightarrow> Inl e
      | Inr (topks, lps, hists_list, None) \<Rightarrow> Inl ValueError
      | Inr (topks, lps, hists_list, Some as) \<Rightarrow>
          (case extend_beam beam topks lps hists_list as diverse of
             Inl e \<Rightarrow> Inl e
           | Inr hyps_lists \<Rightarrow>
               (case clean_beam finished (concat hyps_lists) end_tok beam_size True of
                  Inl e \<Rightarrow> Inl e
                | Inr (fin, new_beam, seen) \<Rightarrow> Inr (fin, new_beam))))"

definition next_search_beam_cnn ::
  "'a hists hypothesis list \<Rightarrow> int \<Rightarrow> 'a hists hypothesis list \<Rightarrow> int \<Rightarrow> int list list
     \<Rightarrow> real list list \<Rightarrow> 'a states \<Rightarrow> real list list option \<Rightarrow> real
     \<Rightarrow> error + ('a hists hypothesis list \<times> 'a hists hypothesis list)" where
  "next_search_beam_cnn beam beam_size finished end_tok topk lp hs attn diverse =
     (case unpack_topk topk lp hs attn of
        Inl e \<Rightarrow> Inl e
      | Inr (topks, lps, hists_list, None) \<Rightarrow> Inl ValueError
      | Inr (topks, lps, hists_list, Some as) \<Rightarrow>
          (case extend_beam beam topks lps hists_list as diverse of
             Inl e \<Rightarrow> Inl e
           | Inr hyps_lists \<Rightarrow>
               (case clean_beam_cnn finished (concat hyps_lists) end_tok beam_size True of
                  Inl e \<Rightarrow> Inl e
                | Inr (fin, new_beam, seen) \<Rightarrow> Inr (fin, new_beam))))"

text \<open>
  The batch cut to its first \<open>n\<close> entries, \<^verbatim>\<open>h[:, :n, :]\<close>, \<^verbatim>\<open>c[:, :n, :]\<close> and \<^verbatim>\<open>out[:n, :]\<close>:
  not a function of the source, but what the statement about ignored rows compares with.
\<close>

definition narrow :: "nat \<Rightarrow> 'a states \<Rightarrow> 'a states" where
  "narrow n hs =
     (case hs of
        Tuple3 h c out \<Rightarrow> Tuple3 (map (take n) h) (map (take n) c) (take n out)
      | Tensor t \<Rightarrow> Tensor (map (take n) t)
      | Packed a b c \<Rightarrow> Packed a b c)"

section \<open>Properties\<close>

subsection \<open>Trigram repetition\<close>

lemma count_list_le_1_distinct:
  "list_all (\<lambda>g. count_list xs g \<le> 1) (remdups xs) \<longleftrightarrow> distinct xs"
proof (induction xs)
  case Nil
  then show ?case by simp
next
  case (Cons x xs)
  show ?case
  proof (cases "x \<in> set xs")
    case True
    then have "count_list xs x \<noteq> 0" by (simp add: count_list_0_iff)
    then have "\<not> count_list (x # xs) x \<le> 1" by simp
    with True show ?thesis by (auto simp: list_all_iff)
  next
    case False
    then have "\<And>g. g \<in> set xs \<Longrightarrow> count_list (x # xs) g = count_list xs g" by auto
    with False Cons show ?thesis by (auto simp: list_all_iff)
  qed
qed

lemma has_repeat_tri_distinct: "has_repeat_tri s \<longleftrightarrow> \<not> distinct (tri_grams s)"
  unfolding has_repeat_tri_def Let_def count_list_le_1_distinct by simp

lemma not_distinct_tri_grams:
  "(\<not> distinct (tri_grams s)) \<longleftrightarrow>
     (\<exists>i j. i < j \<and> j + 3 \<le> length s \<and> take 3 (drop i s) = take 3 (drop j s))"
proof -
  have "(\<not> distinct (tri_grams s)) \<longleftrightarrow>
        (\<exists>i j. i < j \<and> j < length s - 2 \<and> take 3 (drop i s) = take 3 (drop j s))"
    unfolding tri_grams_def distinct_conv_nth
    apply (auto)
    subgoal for i j
      apply (cases "i < j")
       apply (rule exI[of _ i], rule exI[of _ j], simp)
      apply (rule exI[of _ j], rule exI[of _ i], simp)
      done
    subgoal for i j
      apply (rule exI[of _ i], simp, rule exI[of _ j], simp)
      done
    done
  moreover have "\<And>j. j < length s - 2 \<longleftrightarrow> j + 3 \<le> length s" by arith
  ultimately show ?thesis by simp
qed

text \<open>
  Claim C7. \<^verbatim>\<open>_has_repeat_tri(s)\<close> is true exactly when two different positions of \<open>s\<close>
  start the same contiguous length-3 subsequence; it is false on \<open>[1,2,3,2,3]\<close> and true
  on \<open>[1,2,3,1,2,3]\<close>. As a HOL function it is pure and deterministic.
\<close>

theorem has_repeat_tri_iff:
  "(has_repeat_tri s \<longleftrightarrow>
      (\<exists>i j. i < j \<and> j + 3 \<le> length s \<and> take 3 (drop i s) = take 3 (drop j s))) \<and>
   \<not> has_repeat_tri [1, 2, 3, 2, 3] \<and>
   has_repeat_tri [1, 2, 3, 1, 2, 3]"
proof (intro conjI)
  show "has_repeat_tri s \<longleftrightarrow>
      (\<exists>i j. i < j \<and> j + 3 \<le> length s \<and> take 3 (drop i s) = take 3 (drop j s))"
    by (simp only: has_repeat_tri_distinct not_distinct_tri_grams)
  show "\<not> has_repeat_tri [1, 2, 3, 2, 3]"
    by (simp add: has_repeat_tri_def tri_grams_def Let_def upt_rec)
  show "has_repeat_tri [1, 2, 3, 1, 2, 3]"
    by (simp add: has_repeat_tri_def tri_grams_def Let_def upt_rec)
qed

theorem has_repeat_tri_iff_witness:
  "has_repeat_tri [7, 8, 9, 4, 7, 8, 9] \<and>
   (\<exists>i j. i < j \<and> j + 3 \<le> length [7, 8, 9, 4, 7, 8, 9 :: int] \<and>
      take 3 (drop i [7, 8, 9, 4, 7, 8, 9 :: int]) = take 3 (drop j [7, 8, 9, 4, 7, 8, 9]))"
proof -
  have "has_repeat_tri [7, 8, 9, 4, 7, 8, 9]"
    by (simp add: has_repeat_tri_def tri_grams_def Let_def upt_rec)
  with has_repeat_tri_iff [of "[7, 8, 9, 4, 7, 8, 9]"] show ?thesis by blast
qed

subsection \<open>Extending a hypothesis\<close>

lemma extend_attn_None: "extend_attn h None = Inr ([], coverage h)"
  by (simp add: extend_attn_def)

lemma extend_k_Inr:
  assumes "extend_k h topk lps st attn d = Inr cs"
  shows "length cs = min (length topk) (length lps)"
    and "i < length cs \<Longrightarrow> sequence (cs ! i) = sequence h @ [topk ! i]"
    and "i < length cs \<Longrightarrow> logprob (cs ! i) = logprob h + lps ! i - d * real i"
  using assms
  by (auto simp: extend_k_def nth_enumerate_eq split: sum.splits)

text \<open>
  Claim C6. Whenever \<^verbatim>\<open>extend_k\<close> returns, it returns one child per pair of
  \<^verbatim>\<open>zip(topk, logprobs)\<close>; child \<open>i\<close> has the parent's sequence with token \<open>i\<close> appended
  (one longer than the parent's) and the score
  \<open>parent.logprob + logprobs[i] - diverse * i\<close>. Without attention it always returns.
  A parent of score \<open>-1.0\<close> with log-probabilities \<open>[-0.1, -0.5]\<close> and \<open>diverse = 1.0\<close>
  has children of scores \<open>-1.1\<close> and \<open>-2.5\<close>.
\<close>

theorem extend_k_children:
  "(extend_k h topk lps st attn d = Inr cs \<longrightarrow>
      length cs = min (length topk) (length lps) \<and>
      (\<forall>i < length cs.
         sequence (cs ! i) = sequence h @ [topk ! i] \<and>
         length (sequence (cs ! i)) = length (sequence h) + 1 \<and>
         logprob (cs ! i) = logprob h + lps ! i - d * real i)) \<and>
   (\<exists>cs'. extend_k h topk lps st None d = Inr cs') \<and>
   map_sum id (map logprob)
     (extend_k \<lparr>sequence = [0], logprob = - 1, hists = st, attns = [], coverage = None\<rparr>
        [5, 7] [- 1 / 10, - 1 / 2] st None 1) = Inr [- 11 / 10, - 5 / 2]"
proof (intro conjI impI allI)
  assume a: "extend_k h topk lps st attn d = Inr cs"
  show "length cs = min (length topk) (length lps)" by (rule extend_k_Inr(1)[OF a])
  fix i assume i: "i < length cs"
  show "sequence (cs ! i) = sequence h @ [topk ! i]" by (rule extend_k_Inr(2)[OF a i])
  then show "length (sequence (cs ! i)) = length (sequence h) + 1" by simp
  show "logprob (cs ! i) = logprob h + lps ! i - d * real i" by (rule extend_k_Inr(3)[OF a i])
next
  show "\<exists>cs'. extend_k h topk lps st None d = Inr cs'"
    by (simp add: extend_k_def extend_attn_None)
next
  show "map_sum id (map logprob)
     (extend_k \<lparr>sequence = [0], logprob = - 1, hists = st, attns = [], coverage = None\<rparr>
        [5, 7] [- 1 / 10, - 1 / 2] st None 1) = Inr [- 11 / 10, - 5 / 2]"
    by (simp add: extend_k_def extend_attn_None enumerate_eq_zip upt_rec)
qed

theorem extend_k_children_witness:
  "extend_k \<lparr>sequence = [0, 3], logprob = - 2, hists = (), attns = [[1]], coverage = Some [1]\<rparr>
      [5, 7] [- 1 / 10, - 1 / 2] () (Some [1 / 2]) 1
     = Inr [\<lparr>sequence = [0, 3, 5], logprob = - 21 / 10, hists = (), attns = [[1], [1 / 2]], coverage = Some [3 / 2]\<rparr>,
            \<lparr>sequence = [0, 3, 7], logprob = - 7 / 2, hists = (), attns = [[1], [1 / 2]], coverage = Some [3 / 2]\<rparr>] \<and>
   length [\<lparr>sequence = [0, 3, 5], logprob = - 21 / 10, hists = (), attns = [[1], [1 / 2]], coverage = Some [3 / 2 :: real]\<rparr>,
            \<lparr>sequence = [0, 3, 7], logprob = - 7 / 2, hists = (), attns = [[1], [1 / 2]], coverage = Some [3 / 2]\<rparr>] = min (length [5, 7 :: int]) (length [- 1 / 10, - 1 / 2 :: real])"
  using extend_k_children [of "\<lparr>sequence = [0, 3], logprob = - 2, hists = (), attns = [[1]], coverage = Some [1]\<rparr>"
      "[5, 7]" "[- 1 / 10, - 1 / 2]" "()" "Some [1 / 2]" 1]
  by (simp add: extend_k_def extend_attn_def tensor_add_def enumerate_eq_zip upt_rec)

text \<open>
  Claim C10. With \<^verbatim>\<open>attn=None\<close>, \<^verbatim>\<open>extend_k\<close> returns children whose attention history
  is the empty list and whose coverage is the parent's coverage unchanged, whatever
  attention history the parent has accumulated.
\<close>

theorem extend_k_no_attn:
  "\<exists>cs. extend_k h topk lps st None d = Inr cs \<and>
        length cs = min (length topk) (length lps) \<and>
        (\<forall>c \<in> set cs. attns c = [] \<and> coverage c = coverage h)"
  by (auto simp: extend_k_def extend_attn_None)

theorem extend_k_no_attn_witness:
  "\<exists>cs. extend_k \<lparr>sequence = [0, 3], logprob = - 2, hists = (), attns = [[1 / 4, 3 / 4]],
                  coverage = Some [1 / 4, 3 / 4]\<rparr> [5] [- 1] () None 1 = Inr cs \<and>
        cs = [\<lparr>sequence = [0, 3, 5], logprob = - 3, hists = (), attns = [],
                coverage = Some [1 / 4, 3 / 4]\<rparr>]"
  using extend_k_no_attn [of "\<lparr>sequence = [0, 3], logprob = - 2, hists = (), attns = [[1 / 4, 3 / 4]],
                  coverage = Some [1 / 4, 3 / 4]\<rparr>" "[5]" "[- 1]" "()" 1]
  by (simp add: extend_k_def extend_attn_def enumerate_eq_zip upt_rec)

subsection \<open>Selecting the final sequence\<close>

text \<open>
  What \<^verbatim>\<open>best_sequence\<close> chooses when both lists are non-empty: \<^verbatim>\<open>beam[0] < finished[0]\<close>
  is \<^verbatim>\<open>finished[0].logprob/len < beam[0].logprob/len\<close>, so \<^verbatim>\<open>finished[0]\<close> is chosen
  exactly when its normalized score is strictly the lower one.
\<close>

lemma best_sequence_choice:
  assumes "sequence f \<noteq> []" "sequence b \<noteq> []"
  shows "best_sequence (f # fs) (Some (b # bs)) =
           Inr (let w = (if mean_key f < mean_key b then f else b)
                in if attns w \<noteq> [] then BestSeqAttns (drop 1 (sequence w)) (attns w)
                   else BestSeq (drop 1 (sequence w)))"
  using assms by (simp add: best_sequence_def hyp_lt_def mean_key_def Let_def)

text \<open>
  Claim C1. The claim is that \<^verbatim>\<open>best_sequence\<close> returns \<^verbatim>\<open>finished[0]\<close>'s sequence exactly
  when its normalized score is strictly greater than \<^verbatim>\<open>beam[0]\<close>'s, as the docstring
  ("the sequence with the highest prob") says. Here \<^verbatim>\<open>finished[0]\<close> has the score
  \<open>-1/2\<close>, \<^verbatim>\<open>beam[0]\<close> the score \<open>-2\<close>, and the function returns \<^verbatim>\<open>beam[0]\<close>'s
  sequence \<open>[5]\<close>.
\<close>

theorem best_sequence_returns_lower_score:
  "mean_key \<lparr>sequence = [0, 5], logprob = - 4, hists = (), attns = [], coverage = None\<rparr>
     < mean_key \<lparr>sequence = [0, 4], logprob = - 1, hists = (), attns = [], coverage = None\<rparr> \<and>
   best_sequence
     [\<lparr>sequence = [0, 4], logprob = - 1, hists = (), attns = [], coverage = None\<rparr>]
     (Some [\<lparr>sequence = [0, 5], logprob = - 4, hists = (), attns = [], coverage = None\<rparr>])
     = Inr (BestSeq [5])"
  by (simp add: best_sequence_def hyp_lt_def mean_key_def)

subsection \<open>The beam step\<close>

lemma sorted_reverse_descending: "sorted_wrt (\<lambda>a b. k b \<le> k a) (sorted_reverse k xs)"
proof -
  have "sorted (map k (sort_key k (rev xs)))" by (rule sorted_sort_key)
  then have "sorted_wrt (\<lambda>a b. k a \<le> k b) (sort_key k (rev xs))"
    by (simp add: sorted_map)
  then show ?thesis
    by (simp add: sorted_reverse_def sorted_wrt_rev)
qed

lemma mset_sorted_reverse: "mset (sorted_reverse k xs) = mset xs"
  by (simp add: sorted_reverse_def)

lemma set_sorted_reverse: "set (sorted_reverse k xs) = set xs"
  by (simp add: sorted_reverse_def)

lemma sorted_by_mean_Inr: "sorted_by_mean xs = Inr ys \<Longrightarrow> ys = sorted_reverse mean_key xs"
  by (simp add: sorted_by_mean_def split: if_splits)

lemma ensure_beam_size_Inr:
  "ensure_beam_size nb bs = Inr r \<Longrightarrow> r = nb @ replicate (nat (bs - int (length nb))) (hd nb)"
proof (induction nb bs rule: ensure_beam_size.induct)
  case (1 nb bs)
  show ?case
  proof (cases "int (length nb) < bs")
    case False
    with "1.prems" show ?thesis by (simp add: ensure_beam_size.simps)
  next
    case True
    with "1.prems" obtain x xs where nb: "nb = x # xs"
      by (cases nb) (auto simp: ensure_beam_size.simps)
    from "1.prems" True nb have "ensure_beam_size (nb @ [x]) bs = Inr r"
      by (simp add: ensure_beam_size.simps)
    from "1.IH"[OF True nb this] nb
    have r: "r = x # xs @ x # replicate (nat (bs - int (length (nb @ [x])))) x" by simp
    from True nb have "nat (bs - int (length nb)) = Suc (nat (bs - int (length (nb @ [x]))))"
      by simp
    with r nb show ?thesis by (simp add: replicate_append_same)
  qed
qed

lemma ensure_beam_size_nonempty:
  "nb \<noteq> [] \<Longrightarrow> \<exists>r. ensure_beam_size nb bs = Inr r"
proof (induction nb bs rule: ensure_beam_size.induct)
  case (1 nb bs)
  show ?case
  proof (cases "int (length nb) < bs")
    case False
    then show ?thesis by (simp add: ensure_beam_size.simps)
  next
    case True
    from "1.prems" obtain x xs where nb: "nb = x # xs" by (cases nb) auto
    from "1.IH"[OF True nb] obtain r where "ensure_beam_size (nb @ [x]) bs = Inr r" by auto
    with True nb show ?thesis by (simp add: ensure_beam_size.simps)
  qed
qed

lemma ensure_beam_size_length:
  "ensure_beam_size nb bs = Inr r \<Longrightarrow> int (length nb) \<le> bs \<Longrightarrow> int (length r) = bs"
  by (drule ensure_beam_size_Inr) simp

lemma ensure_beam_size_set:
  assumes "ensure_beam_size nb bs = Inr r"
  shows "set r = set nb"
proof (cases nb)
  case Nil
  with assms show ?thesis
    by (simp add: ensure_beam_size.simps split: if_splits)
next
  case (Cons x xs)
  with ensure_beam_size_Inr[OF assms] show ?thesis by auto
qed
lemma clean_loop_Inr:
  assumes "clean_loop e bs rt fin nb seen hs = Inr (fin', nb', seen')"
  shows "\<exists>vs. seen' = seen @ vs \<and> vs = map (sentinel rt) (take (length vs) hs) \<and>
           fin' = fin @ map finished_hyp (filter (\<lambda>h. last (sequence h) = e) vs) \<and>
           (\<exists>pad. nb' = nb @ filter (\<lambda>h. last (sequence h) \<noteq> e) vs @ pad \<and> set pad \<subseteq> set nb')"
  using assms
proof (induction hs arbitrary: fin nb seen)
  case Nil
  then obtain r where r: "ensure_beam_size nb bs = Inr r" and eq: "fin' = fin" "nb' = r" "seen' = seen"
    by (auto split: sum.splits)
  from ensure_beam_size_Inr[OF r] ensure_beam_size_set[OF r]
  have "\<exists>pad. r = nb @ pad \<and> set pad \<subseteq> set r" 
    by (cases nb) auto
  with eq show ?case by auto
next
  case (Cons h0 hs)
  let ?h = "sentinel rt h0"
  let ?fin = "if last (sequence ?h) = e then fin @ [finished_hyp ?h] else fin"
  let ?nb = "if last (sequence ?h) = e then nb else nb @ [?h]"
  from Cons.prems have ne: "sequence ?h \<noteq> []"
    by (auto simp: sentinel_def Let_def split: if_splits)
  show ?case
  proof (cases "int (length ?nb) = bs")
    case True
    with Cons.prems ne have eq: "fin' = ?fin" "nb' = ?nb" "seen' = seen @ [?h]"
      by (auto simp: sentinel_def Let_def split: if_splits)
    show ?thesis
      by (rule exI[of _ "[?h]"]) (use eq in auto)
  next
    case False
    with Cons.prems ne
    have "clean_loop e bs rt ?fin ?nb (seen @ [?h]) hs = Inr (fin', nb', seen')"
      by (auto simp: sentinel_def Let_def split: if_splits)
    from Cons.IH[OF this] obtain vs pad where
      vs: "seen' = (seen @ [?h]) @ vs" "vs = map (sentinel rt) (take (length vs) hs)"
        "fin' = ?fin @ map finished_hyp (filter (\<lambda>h. last (sequence h) = e) vs)"
        "nb' = ?nb @ filter (\<lambda>h. last (sequence h) \<noteq> e) vs @ pad" "set pad \<subseteq> set nb'"
      by blast
    show ?thesis
      apply (rule exI[of _ "?h # vs"])
      using vs by (auto intro!: exI[of _ pad])
  qed
qed

lemma clean_loop_length:
  assumes "clean_loop e bs rt fin nb seen hs = Inr (fin', nb', seen')"
    and "int (length nb) < bs"
  shows "int (length nb') = bs"
  using assms
proof (induction hs arbitrary: fin nb seen)
  case Nil
  then show ?case by (auto split: sum.splits dest: ensure_beam_size_length)
next
  case (Cons h0 hs)
  let ?h = "sentinel rt h0"
  let ?fin = "if last (sequence ?h) = e then fin @ [finished_hyp ?h] else fin"
  let ?nb = "if last (sequence ?h) = e then nb else nb @ [?h]"
  from Cons.prems have ne: "sequence ?h \<noteq> []"
    by (auto simp: sentinel_def Let_def split: if_splits)
  show ?case
  proof (cases "int (length ?nb) = bs")
    case True
    with Cons.prems ne have eq: "nb' = ?nb"
      by (auto simp: sentinel_def Let_def split: if_splits)
    with True show ?thesis by simp
  next
    case False
    with Cons.prems ne
    have *: "clean_loop e bs rt ?fin ?nb (seen @ [?h]) hs = Inr (fin', nb', seen')"
      by (auto simp: sentinel_def Let_def split: if_splits)
    from False Cons.prems(2) have "int (length ?nb) < bs" by auto
    from Cons.IH[OF * this] show ?thesis .
  qed
qed


lemma clean_loop_cnn_Inr:
  assumes "clean_loop_cnn e bs True fin nb seen hs = Inr (fin', nb', seen')"
  shows "\<exists>acc. set acc \<subseteq> {h \<in> set hs. \<not> has_repeat_tri (sequence h)} \<and>
           fin' = fin @ map finished_hyp_cnn (filter (\<lambda>h. last (sequence h) = e) acc) \<and>
           set nb' = set nb \<union> {h \<in> set acc. last (sequence h) \<noteq> e}"
    and "\<exists>vs. seen' = seen @ vs \<and> map sequence vs = map sequence (take (length vs) hs) \<and>
           (\<forall>h \<in> set vs. has_repeat_tri (sequence h) \<longrightarrow> logprob h = - 1000000000)"
  using assms
proof (induction hs arbitrary: fin nb seen)
  case Nil
  { case 1
    then obtain r where r: "ensure_beam_size nb bs = Inr r" and eq: "fin' = fin" "nb' = r"
      by (auto split: sum.splits)
    from ensure_beam_size_set[OF r] eq show ?case
      by (intro exI[of _ "[]"]) simp
  next
    case 2
    then show ?case by (auto split: sum.splits) }
next
  case (Cons h hs)
  { case 1
    show ?case
    proof (cases "has_repeat_tri (sequence h)")
      case True
      with 1 have "clean_loop_cnn e bs True fin nb (seen @ [h\<lparr>logprob := - 1000000000\<rparr>]) hs
                     = Inr (fin', nb', seen')" by simp
      from Cons.IH(1)[OF this] show ?thesis by auto
    next
      case False
      let ?fin = "if last (sequence h) = e then fin @ [finished_hyp_cnn h] else fin"
      let ?nb = "if last (sequence h) = e then nb else nb @ [h]"
      from 1 False have ne: "sequence h \<noteq> []" by (auto split: if_splits)
      show ?thesis
      proof (cases "int (length ?nb) = bs")
        case True
        with 1 False ne have eq: "fin' = ?fin" "nb' = ?nb"
          by (auto simp: Let_def split: if_splits)
        show ?thesis
          by (rule exI[of _ "[h]"]) (use eq False in auto)
      next
        case F2: False
        with 1 False ne
        have "clean_loop_cnn e bs True ?fin ?nb (seen @ [h]) hs = Inr (fin', nb', seen')"
          by (auto simp: Let_def split: if_splits)
        from Cons.IH(1)[OF this] obtain acc where
          acc: "set acc \<subseteq> {h \<in> set hs. \<not> has_repeat_tri (sequence h)}"
            "fin' = ?fin @ map finished_hyp_cnn (filter (\<lambda>h. last (sequence h) = e) acc)"
            "set nb' = set ?nb \<union> {h \<in> set acc. last (sequence h) \<noteq> e}"
          by blast
        show ?thesis
          by (rule exI[of _ "h # acc"]) (use acc False in auto)
      qed
    qed
  next
    case 2
    show ?case
    proof (cases "has_repeat_tri (sequence h)")
      case True
      with 2 have "clean_loop_cnn e bs True fin nb (seen @ [h\<lparr>logprob := - 1000000000\<rparr>]) hs
                     = Inr (fin', nb', seen')" by simp
      from Cons.IH(2)[OF this] obtain vs where
        vs: "seen' = (seen @ [h\<lparr>logprob := - 1000000000\<rparr>]) @ vs"
          "map sequence vs = map sequence (take (length vs) hs)"
          "\<forall>h \<in> set vs. has_repeat_tri (sequence h) \<longrightarrow> logprob h = - 1000000000"
        by blast
      show ?thesis
        by (rule exI[of _ "h\<lparr>logprob := - 1000000000\<rparr> # vs"]) (use vs in auto)
    next
      case False
      let ?fin = "if last (sequence h) = e then fin @ [finished_hyp_cnn h] else fin"
      let ?nb = "if last (sequence h) = e then nb else nb @ [h]"
      from 2 False have ne: "sequence h \<noteq> []" by (auto split: if_splits)
      show ?thesis
      proof (cases "int (length ?nb) = bs")
        case True
        with 2 False ne have eq: "seen' = seen @ [h]"
          by (auto simp: Let_def split: if_splits)
        show ?thesis
          by (rule exI[of _ "[h]"]) (use eq False in auto)
      next
        case F2: False
        with 2 False ne
        have "clean_loop_cnn e bs True ?fin ?nb (seen @ [h]) hs = Inr (fin', nb', seen')"
          by (auto simp: Let_def split: if_splits)
        from Cons.IH(2)[OF this] obtain vs where
          vs: "seen' = (seen @ [h]) @ vs"
            "map sequence vs = map sequence (take (length vs) hs)"
            "\<forall>h \<in> set vs. has_repeat_tri (sequence h) \<longrightarrow> logprob h = - 1000000000"
          by blast
        show ?thesis
          by (rule exI[of _ "h # vs"]) (use vs False in auto)
      qed
    qed }
qed
lemma length_wu_pos: "0 < length_wu n a"
  by (simp add: length_wu_def)

lemma wu_key_le_iff:
  "length (sequence a) = length (sequence b) \<Longrightarrow> wu_key a \<le> wu_key b \<longleftrightarrow> logprob a \<le> logprob b"
  using length_wu_pos[of "length (sequence b)" "9 / 10"]
  by (simp add: wu_key_def divide_le_cancel)

lemma clean_loop_cnn_length:
  assumes "clean_loop_cnn e bs rt fin nb seen hs = Inr (fin', nb', seen')"
    and "int (length nb) < bs"
  shows "int (length nb') = bs"
  using assms
proof (induction hs arbitrary: fin nb seen)
  case Nil
  then show ?case by (auto split: sum.splits dest: ensure_beam_size_length)
next
  case (Cons h hs)
  show ?case
  proof (cases "rt \<and> has_repeat_tri (sequence h)")
    case True
    with Cons.prems(1) have "clean_loop_cnn e bs rt fin nb (seen @ [h\<lparr>logprob := - 1000000000\<rparr>]) hs
                     = Inr (fin', nb', seen')" by simp
    from Cons.IH[OF this Cons.prems(2)] show ?thesis .
  next
    case False
    let ?fin = "if last (sequence h) = e then fin @ [finished_hyp_cnn h] else fin"
    let ?nb = "if last (sequence h) = e then nb else nb @ [h]"
    from Cons.prems False have ne: "sequence h \<noteq> []" by (auto split: if_splits)
    show ?thesis
    proof (cases "int (length ?nb) = bs")
      case True
      with Cons.prems False ne have eq: "nb' = ?nb"
        by (auto simp: Let_def split: if_splits)
      with True show ?thesis by simp
    next
      case F2: False
      with Cons.prems False ne
      have *: "clean_loop_cnn e bs rt ?fin ?nb (seen @ [h]) hs = Inr (fin', nb', seen')"
        by (auto simp: Let_def split: if_splits)
      from F2 Cons.prems(2) have "int (length ?nb) < bs" by auto
      from Cons.IH[OF * this] show ?thesis .
    qed
  qed
qed

lemma clean_beam_length:
  assumes "clean_beam fin beam e bs rt = Inr (fin', nb, seen)" and "0 < bs"
  shows "int (length nb) = bs"
  using assms
  by (auto simp: clean_beam_def split: sum.splits dest: clean_loop_length)

lemma clean_beam_cnn_length:
  assumes "clean_beam_cnn fin beam e bs rt = Inr (fin', nb, seen)" and "0 < bs"
  shows "int (length nb) = bs"
  using assms
  by (auto simp: clean_beam_cnn_def split: sum.splits dest: clean_loop_cnn_length)

lemma clean_beam_sorted:
  assumes "clean_beam fin beam e bs rt = Inr (fin', nb, seen)"
  shows "sorted_wrt (\<lambda>a b. mean_key b \<le> mean_key a) fin'"
  using assms
  by (auto simp: clean_beam_def sorted_reverse_descending split: sum.splits
      dest!: sorted_by_mean_Inr)

lemma clean_beam_cnn_sorted:
  assumes "clean_beam_cnn fin beam e bs rt = Inr (fin', nb, seen)"
  shows "sorted_wrt (\<lambda>a b. mean_key b \<le> mean_key a) fin'"
  using assms
  by (auto simp: clean_beam_cnn_def sorted_reverse_descending split: sum.splits
      dest!: sorted_by_mean_Inr)

lemmas eval_simps = clean_beam_def clean_beam_cnn_def sorted_reverse_def sorted_by_mean_def
  has_repeat_tri_def tri_grams_def ensure_beam_size.simps mean_key_def wu_key_le_iff
  finished_hyp_def finished_hyp_cnn_def Let_def upt_rec

text \<open>
  Claim C2. The claim is that the new beam always has exactly \<^verbatim>\<open>beam_size\<close> entries and
  that the call does not fail when fewer candidates are accepted. When a call returns,
  the new beam has that length (\<open>clean_beam_length\<close>, \<open>clean_beam_cnn_length\<close>); but
  when no candidate is accepted, \<^verbatim>\<open>new_beam[0]\<close> in the padding loop raises. Here the only
  candidate ends in the end token \<open>9\<close>.
\<close>

theorem clean_beam_empty_new_beam_raises:
  "clean_beam [] [\<lparr>sequence = [0, 9], logprob = - 1, hists = (), attns = [], coverage = None\<rparr>]
     9 1 True = Inl IndexError \<and>
   clean_beam_cnn [] [\<lparr>sequence = [0, 9], logprob = - 1, hists = (), attns = [], coverage = None\<rparr>]
     9 1 True = Inl IndexError"
  by (simp add: clean_beam_def clean_beam_cnn_def sorted_reverse_def sorted_by_mean_def
      has_repeat_tri_def tri_grams_def ensure_beam_size.simps)

text \<open>
  Claim C8. Whenever either variant returns, the finished list it returns is sorted
  descending by the plain mean \<^verbatim>\<open>logprob/len(sequence)\<close>, also in \<^verbatim>\<open>_clean_beam\<close>, which
  orders the candidates by the Wu key.
\<close>

theorem finished_sorted_by_mean:
  "(clean_beam fin beam e bs rt = Inr (fin', nb, seen) \<longrightarrow>
      sorted_wrt (\<lambda>a b. mean_key b \<le> mean_key a) fin') \<and>
   (clean_beam_cnn fin beam e bs rt = Inr (fin2, nb2, seen2) \<longrightarrow>
      sorted_wrt (\<lambda>a b. mean_key b \<le> mean_key a) fin2)"
  by (blast intro: clean_beam_sorted clean_beam_cnn_sorted)

theorem finished_sorted_by_mean_witness:
  "clean_beam
     [\<lparr>sequence = [0, 1], logprob = - 3, hists = (), attns = [], coverage = None\<rparr>]
     [\<lparr>sequence = [0, 4, 9], logprob = - 2, hists = (), attns = [], coverage = None\<rparr>,
      \<lparr>sequence = [0, 4, 5], logprob = - 5, hists = (), attns = [], coverage = None\<rparr>]
     9 1 True =
   Inr ([\<lparr>sequence = [0, 4], logprob = - 2, hists = (), attns = [], coverage = None\<rparr>,
         \<lparr>sequence = [0, 1], logprob = - 3, hists = (), attns = [], coverage = None\<rparr>],
        [\<lparr>sequence = [0, 4, 5], logprob = - 5, hists = (), attns = [], coverage = None\<rparr>],
        [\<lparr>sequence = [0, 4, 9], logprob = - 2, hists = (), attns = [], coverage = None\<rparr>,
         \<lparr>sequence = [0, 4, 5], logprob = - 5, hists = (), attns = [], coverage = None\<rparr>]) \<and>
   clean_beam_cnn
     [\<lparr>sequence = [0, 1], logprob = - 3, hists = (), attns = [], coverage = None\<rparr>]
     [\<lparr>sequence = [0, 4, 9], logprob = - 2, hists = (), attns = [], coverage = None\<rparr>,
      \<lparr>sequence = [0, 4, 5], logprob = - 5, hists = (), attns = [], coverage = None\<rparr>]
     9 1 True =
   Inr ([\<lparr>sequence = [0, 4], logprob = - 2, hists = (), attns = [], coverage = None\<rparr>,
         \<lparr>sequence = [0, 1], logprob = - 3, hists = (), attns = [], coverage = None\<rparr>],
        [\<lparr>sequence = [0, 4, 5], logprob = - 5, hists = (), attns = [], coverage = None\<rparr>],
        [\<lparr>sequence = [0, 4, 9], logprob = - 2, hists = (), attns = [], coverage = None\<rparr>,
         \<lparr>sequence = [0, 4, 5], logprob = - 5, hists = (), attns = [], coverage = None\<rparr>]) \<and>
   sorted_wrt (\<lambda>a b. mean_key b \<le> mean_key a)
     [\<lparr>sequence = [0, 4], logprob = - 2, hists = (), attns = [], coverage = None\<rparr>,
      \<lparr>sequence = [0, 1], logprob = - 3, hists = (), attns = [], coverage = None\<rparr>]"
proof -
  let ?old = "\<lparr>sequence = [0, 1], logprob = - 3, hists = (), attns = [], coverage = None\<rparr>"
  let ?h = "\<lparr>sequence = [0, 4, 9], logprob = - 2, hists = (), attns = [], coverage = None\<rparr>"
  let ?g = "\<lparr>sequence = [0, 4, 5], logprob = - 5, hists = (), attns = [], coverage = None\<rparr>"
  let ?f = "\<lparr>sequence = [0, 4], logprob = - 2, hists = (), attns = [], coverage = None\<rparr>"
  have a: "clean_beam [?old] [?h, ?g] 9 1 True = Inr ([?f, ?old], [?g], [?h, ?g])"
    by (simp add: eval_simps)
  have b: "clean_beam_cnn [?old] [?h, ?g] 9 1 True = Inr ([?f, ?old], [?g], [?h, ?g])"
    by (simp add: eval_simps)
  from finished_sorted_by_mean
         [of "[?old]" "[?h, ?g]" 9 1 True "[?f, ?old]" "[?g]" "[?h, ?g]" "[?f, ?old]" "[?g]" "[?h, ?g]"]
    a b
  show ?thesis by blast
qed

lemma clean_loop_cnn_visited:
  assumes "clean_loop_cnn e bs True fin nb seen hs = Inr (fin', nb', seen')"
    and "int (length nb) < bs"
  shows "\<exists>vs. seen' = seen @ vs \<and> vs = map (sentinel True) (take (length vs) hs) \<and>
           (\<forall>k < length vs. int (length nb + length (filter (kept e) (take k hs))) < bs) \<and>
           (length vs < length hs \<longrightarrow>
              int (length nb + length (filter (kept e) (take (length vs) hs))) = bs)"
  using assms
proof (induction hs arbitrary: fin nb seen)
  case Nil
  then show ?case by (auto split: sum.splits)
next
  case (Cons h hs)
  let ?P = "\<lambda>nb hs vs. vs = map (sentinel True) (take (length vs) hs) \<and>
           (\<forall>k < length vs. int (length nb + length (filter (kept e) (take k hs))) < bs) \<and>
           (length vs < length hs \<longrightarrow>
              int (length nb + length (filter (kept e) (take (length vs) hs))) = bs)"
  have step: "?P nb (h # hs) (sentinel True h # vs)"
    if a: "?P nb0 hs vs" and b: "length nb0 = length nb + (if kept e h then 1 else 0)" for nb0 vs
  proof (intro conjI allI impI)
    show "sentinel True h # vs = map (sentinel True) (take (length (sentinel True h # vs)) (h # hs))"
      using a by simp
  next
    fix k assume k: "k < length (sentinel True h # vs)"
    show "int (length nb + length (filter (kept e) (take k (h # hs)))) < bs"
    proof (cases k)
      case 0
      with Cons.prems(2) show ?thesis by simp
    next
      case (Suc j)
      with k have "j < length vs" by simp
      with a have "int (length nb0 + length (filter (kept e) (take j hs))) < bs" by blast
      with b Suc show ?thesis by (cases "kept e h") simp_all
    qed
  next
    assume "length (sentinel True h # vs) < length (h # hs)"
    then have "length vs < length hs" by simp
    with a have "int (length nb0 + length (filter (kept e) (take (length vs) hs))) = bs" by blast
    with b show "int (length nb + length (filter (kept e) (take (length (sentinel True h # vs)) (h # hs)))) = bs"
      by (cases "kept e h") simp_all
  qed
  show ?case
  proof (cases "has_repeat_tri (sequence h)")
    case True
    with Cons.prems(1)
    have "clean_loop_cnn e bs True fin nb (seen @ [h\<lparr>logprob := - 1000000000\<rparr>]) hs
            = Inr (fin', nb', seen')" by simp
    from Cons.IH[OF this Cons.prems(2)] obtain vs where
      vs: "seen' = (seen @ [h\<lparr>logprob := - 1000000000\<rparr>]) @ vs" "?P nb hs vs" by blast
    from True have s: "sentinel True h = h\<lparr>logprob := - 1000000000\<rparr>" "\<not> kept e h"
      by (simp_all add: sentinel_def kept_def)
    from step[OF vs(2)] s(2) have "?P nb (h # hs) (sentinel True h # vs)" by simp
    with vs(1) s(1) show ?thesis by (intro exI[of _ "sentinel True h # vs"]) simp
  next
    case False
    then have s: "sentinel True h = h" by (simp add: sentinel_def)
    let ?fin = "if last (sequence h) = e then fin @ [finished_hyp_cnn h] else fin"
    let ?nb = "if last (sequence h) = e then nb else nb @ [h]"
    from Cons.prems(1) False have ne: "sequence h \<noteq> []" by (auto split: if_splits)
    have kp: "kept e h \<longleftrightarrow> last (sequence h) \<noteq> e" using False by (simp add: kept_def)
    show ?thesis
    proof (cases "int (length ?nb) = bs")
      case True
      with Cons.prems(1) False ne have eq: "seen' = seen @ [h]"
        by (auto simp: Let_def split: if_splits)
      from True Cons.prems(2) have k: "kept e h" "int (length nb) + 1 = bs"
        by (auto simp: kp split: if_splits)
      have "?P nb (h # hs) [sentinel True h]"
        using k Cons.prems(2) by (simp add: s)
      with eq s show ?thesis by (intro exI[of _ "[sentinel True h]"]) simp
    next
      case F2: False
      with Cons.prems(1) False ne
      have *: "clean_loop_cnn e bs True ?fin ?nb (seen @ [h]) hs = Inr (fin', nb', seen')"
        by (auto simp: Let_def split: if_splits)
      from F2 Cons.prems(2) have lt: "int (length ?nb) < bs" by auto
      from Cons.IH[OF * lt] obtain vs where
        vs: "seen' = (seen @ [h]) @ vs" "?P ?nb hs vs" by blast
      have "length ?nb = length nb + (if kept e h then 1 else 0)" by (simp add: kp)
      from step[OF vs(2) this] have "?P nb (h # hs) (sentinel True h # vs)" .
      with vs(1) s show ?thesis by (intro exI[of _ "sentinel True h # vs"]) simp
    qed
  qed
qed

text \<open>
  Claim C5, as the code has it. The claim is that every candidate that repeats a trigram
  has its \<^verbatim>\<open>logprob\<close> set to the sentinel \<open>-1e9\<close> and is skipped. Here \<^verbatim>\<open>beam_size\<close> is
  1: the loop visits the first candidate of the sorted pool, appends it and breaks. The
  second candidate repeats the trigram \<open>(1, 2, 3)\<close> and is never visited, so nothing is
  written to it and it keeps the score \<open>-2\<close>.
\<close>

theorem clean_beam_cnn_unvisited_keeps_score:
  "has_repeat_tri [0, 1, 2, 3, 1, 2, 3] \<and>
   clean_beam_cnn []
     [\<lparr>sequence = [0, 1, 2, 3, 4, 5, 6], logprob = - 1, hists = (), attns = [], coverage = None\<rparr>,
      \<lparr>sequence = [0, 1, 2, 3, 1, 2, 3], logprob = - 2, hists = (), attns = [], coverage = None\<rparr>]
     9 1 True =
   Inr ([],
        [\<lparr>sequence = [0, 1, 2, 3, 4, 5, 6], logprob = - 1, hists = (), attns = [], coverage = None\<rparr>],
        [\<lparr>sequence = [0, 1, 2, 3, 4, 5, 6], logprob = - 1, hists = (), attns = [], coverage = None\<rparr>])"
  by (simp add: eval_simps)

text \<open>
  Claim C5, amended. When \<^verbatim>\<open>_clean_beam_cnn\<close> with \<^verbatim>\<open>remove_tri\<close> true returns, every entry
  of the new beam is a candidate without a repeated trigram, and the entries added to the
  finished list are the finished copies of candidates without a repeated trigram,
  whatever the scores. Every candidate that the loop visits and that repeats a trigram
  is left with the sentinel \<open>-1e9\<close> and skipped. For a positive \<^verbatim>\<open>beam_size\<close>, the visited
  candidates are the initial part of the pool, sorted by the plain mean, up to the
  candidate that fills the new beam: the new beam is not full before any visited
  candidate, and it is full when the loop stops before the end of the pool. The
  candidates after that point are not visited and keep their scores.
\<close>

theorem clean_beam_cnn_hard_exclude:
  assumes "clean_beam_cnn fin beam e bs True = Inr (fin', nb, seen)"
  shows "(\<forall>h \<in> set nb. h \<in> set beam \<and> \<not> has_repeat_tri (sequence h)) \<and>
         (\<exists>acc. set acc \<subseteq> {h \<in> set beam. \<not> has_repeat_tri (sequence h) \<and> last (sequence h) = e} \<and>
                mset fin' = mset fin + mset (map finished_hyp_cnn acc)) \<and>
         map sequence seen = take (length seen) (map sequence (sorted_reverse mean_key beam)) \<and>
         (\<forall>h \<in> set seen. has_repeat_tri (sequence h) \<longrightarrow> logprob h = - 1000000000) \<and>
         (0 < bs \<longrightarrow>
            seen = map (sentinel True) (take (length seen) (sorted_reverse mean_key beam)) \<and>
            (\<forall>k < length seen.
               int (length (filter (kept e) (take k (sorted_reverse mean_key beam)))) < bs) \<and>
            (length seen < length beam \<longrightarrow>
               int (length (filter (kept e) (take (length seen) (sorted_reverse mean_key beam)))) = bs))"
proof -
  from assms obtain pool fin0 where
    pool: "sorted_by_mean beam = Inr pool" and
    loop: "clean_loop_cnn e bs True fin [] [] pool = Inr (fin0, nb, seen)" and
    fin0: "sorted_by_mean fin0 = Inr fin'"
    by (auto simp: clean_beam_cnn_def split: sum.splits)
  from sorted_by_mean_Inr[OF pool] have p: "pool = sorted_reverse mean_key beam" .
  then have sp: "set pool = set beam" by (simp add: set_sorted_reverse)
  have lp: "length (sorted_reverse mean_key beam) = length beam"
    by (simp add: sorted_reverse_def)
  from clean_loop_cnn_Inr(1)[OF loop] obtain acc where
    acc: "set acc \<subseteq> {h \<in> set pool. \<not> has_repeat_tri (sequence h)}"
      "fin0 = fin @ map finished_hyp_cnn (filter (\<lambda>h. last (sequence h) = e) acc)"
      "set nb = set [] \<union> {h \<in> set acc. last (sequence h) \<noteq> e}"
    by blast
  from clean_loop_cnn_Inr(2)[OF loop] obtain vs where
    vs: "seen = [] @ vs" "map sequence vs = map sequence (take (length vs) pool)"
      "\<forall>h \<in> set vs. has_repeat_tri (sequence h) \<longrightarrow> logprob h = - 1000000000"
    by blast
  have 1: "\<forall>h \<in> set nb. h \<in> set beam \<and> \<not> has_repeat_tri (sequence h)"
    using acc(1,3) sp by auto
  have "mset fin' = mset fin0"
    using sorted_by_mean_Inr[OF fin0] by (simp add: mset_sorted_reverse)
  then have 2: "\<exists>acc. set acc \<subseteq> {h \<in> set beam. \<not> has_repeat_tri (sequence h) \<and> last (sequence h) = e} \<and>
                mset fin' = mset fin + mset (map finished_hyp_cnn acc)"
    using acc(1,2) sp
    by (intro exI[of _ "filter (\<lambda>h. last (sequence h) = e) acc"]) auto
  have 3: "map sequence seen = take (length seen) (map sequence (sorted_reverse mean_key beam))"
    using vs(1,2) p by (simp add: take_map)
  have 4: "\<forall>h \<in> set seen. has_repeat_tri (sequence h) \<longrightarrow> logprob h = - 1000000000"
    using vs(1,3) by simp
  have 5: "0 < bs \<longrightarrow>
            seen = map (sentinel True) (take (length seen) (sorted_reverse mean_key beam)) \<and>
            (\<forall>k < length seen.
               int (length (filter (kept e) (take k (sorted_reverse mean_key beam)))) < bs) \<and>
            (length seen < length beam \<longrightarrow>
               int (length (filter (kept e) (take (length seen) (sorted_reverse mean_key beam)))) = bs)"
  proof
    assume "0 < bs"
    then have "int (length ([] :: 'a hypothesis list)) < bs" by simp
    from clean_loop_cnn_visited[OF loop this] obtain ws where
      ws: "seen = [] @ ws" "ws = map (sentinel True) (take (length ws) pool)"
        "\<forall>k < length ws. int (length ([] :: 'a hypothesis list)
             + length (filter (kept e) (take k pool))) < bs"
        "length ws < length pool \<longrightarrow>
           int (length ([] :: 'a hypothesis list)
             + length (filter (kept e) (take (length ws) pool))) = bs"
      by blast
    from ws(1) have sw: "ws = seen" by simp
    from ws(2-4) show "seen = map (sentinel True) (take (length seen) (sorted_reverse mean_key beam)) \<and>
            (\<forall>k < length seen.
               int (length (filter (kept e) (take k (sorted_reverse mean_key beam)))) < bs) \<and>
            (length seen < length beam \<longrightarrow>
               int (length (filter (kept e) (take (length seen) (sorted_reverse mean_key beam)))) = bs)"
      unfolding sw p lp by simp
  qed
  from 1 2 3 4 5 show ?thesis by (intro conjI)
qed

theorem clean_beam_cnn_hard_exclude_witness:
  "clean_beam_cnn []
     [\<lparr>sequence = [0, 1, 2, 3, 1, 2, 3], logprob = - 1, hists = (), attns = [], coverage = None\<rparr>,
      \<lparr>sequence = [0, 1, 2, 3, 4, 5, 6], logprob = - 2, hists = (), attns = [], coverage = None\<rparr>,
      \<lparr>sequence = [0, 4, 5, 6, 4, 5, 6], logprob = - 3, hists = (), attns = [], coverage = None\<rparr>]
     9 1 True =
   Inr ([],
        [\<lparr>sequence = [0, 1, 2, 3, 4, 5, 6], logprob = - 2, hists = (), attns = [], coverage = None\<rparr>],
        [\<lparr>sequence = [0, 1, 2, 3, 1, 2, 3], logprob = - 1000000000, hists = (), attns = [], coverage = None\<rparr>,
         \<lparr>sequence = [0, 1, 2, 3, 4, 5, 6], logprob = - 2, hists = (), attns = [], coverage = None\<rparr>]) \<and>
   list_all (\<lambda>h. \<not> has_repeat_tri (sequence h))
     [\<lparr>sequence = [0, 1, 2, 3, 4, 5, 6], logprob = - 2, hists = (), attns = [], coverage = None\<rparr>] \<and>
   [\<lparr>sequence = [0, 1, 2, 3, 1, 2, 3], logprob = - 1000000000, hists = (), attns = [], coverage = None\<rparr>,
    \<lparr>sequence = [0, 1, 2, 3, 4, 5, 6], logprob = - 2, hists = (), attns = [], coverage = None\<rparr>]
     = map (sentinel True) (take 2 (sorted_reverse mean_key
         [\<lparr>sequence = [0, 1, 2, 3, 1, 2, 3], logprob = - 1, hists = (), attns = [], coverage = None\<rparr>,
          \<lparr>sequence = [0, 1, 2, 3, 4, 5, 6], logprob = - 2, hists = (), attns = [], coverage = None\<rparr>,
          \<lparr>sequence = [0, 4, 5, 6, 4, 5, 6], logprob = - 3, hists = (), attns = [], coverage = None\<rparr>]))"
proof -
  let ?rep = "\<lparr>sequence = [0, 1, 2, 3, 1, 2, 3], logprob = - 1, hists = (), attns = [], coverage = None\<rparr>"
  let ?ok = "\<lparr>sequence = [0, 1, 2, 3, 4, 5, 6], logprob = - 2, hists = (), attns = [], coverage = None\<rparr>"
  let ?rep' = "\<lparr>sequence = [0, 4, 5, 6, 4, 5, 6], logprob = - 3, hists = (), attns = [], coverage = None\<rparr>"
  let ?seen = "[?rep\<lparr>logprob := - 1000000000\<rparr>, ?ok]"
  have a: "clean_beam_cnn [] [?rep, ?ok, ?rep'] 9 1 True = Inr ([], [?ok], ?seen)"
    by (simp add: eval_simps)
  note t = clean_beam_cnn_hard_exclude [OF a]
  from t have "\<forall>h \<in> set [?ok]. \<not> has_repeat_tri (sequence h)" by blast
  then have b: "list_all (\<lambda>h. \<not> has_repeat_tri (sequence h)) [?ok]"
    by (simp only: list_all_iff)
  have "(0 :: int) < 1" by simp
  with t have "?seen = map (sentinel True) (take (length ?seen) (sorted_reverse mean_key [?rep, ?ok, ?rep']))"
    by blast
  moreover have "length ?seen = 2" by simp
  ultimately have c: "?seen = map (sentinel True) (take 2 (sorted_reverse mean_key [?rep, ?ok, ?rep']))"
    by (simp only:)
  from a b c show ?thesis by simp
qed

text \<open>
  Claim C9. When \<^verbatim>\<open>_clean_beam\<close> with \<^verbatim>\<open>remove_tri\<close> true returns, the candidates it has
  visited are an initial part of the pool sorted by the Wu key of the scores the
  candidates came with, each left with the sentinel written if it repeats a trigram;
  the new beam starts with the visited candidates that do not end in the end token, in
  that order, and the finished list gains the finished copies of those that do. So a
  candidate that repeats a trigram keeps the rank of its original score: with
  \<^verbatim>\<open>beam_size = 1\<close>, the repeating candidate of original score \<open>-1\<close> is the new beam,
  ahead of the non-repeating one of score \<open>-2\<close>, and a repeating candidate that ends in the
  end token is promoted to the finished list ahead of it.
\<close>

theorem clean_beam_ranks_by_original_score:
  "(clean_beam fin beam e bs True = Inr (fin', nb, seen) \<longrightarrow>
      seen = map (sentinel True) (take (length seen) (sorted_reverse wu_key beam)) \<and>
      take (length (filter (\<lambda>h. last (sequence h) \<noteq> e) seen)) nb
        = filter (\<lambda>h. last (sequence h) \<noteq> e) seen \<and>
      mset fin' = mset fin + mset (map finished_hyp (filter (\<lambda>h. last (sequence h) = e) seen))) \<and>
   clean_beam []
     [\<lparr>sequence = [0, 1, 2, 3, 4, 5, 6], logprob = - 2, hists = (), attns = [], coverage = None\<rparr>,
      \<lparr>sequence = [0, 1, 2, 3, 1, 2, 3], logprob = - 1, hists = (), attns = [], coverage = None\<rparr>]
     9 1 True =
   Inr ([],
        [\<lparr>sequence = [0, 1, 2, 3, 1, 2, 3], logprob = - 1000000000, hists = (), attns = [], coverage = None\<rparr>],
        [\<lparr>sequence = [0, 1, 2, 3, 1, 2, 3], logprob = - 1000000000, hists = (), attns = [], coverage = None\<rparr>]) \<and>
   clean_beam []
     [\<lparr>sequence = [0, 1, 2, 3, 4, 5, 6], logprob = - 2, hists = (), attns = [], coverage = None\<rparr>,
      \<lparr>sequence = [1, 2, 3, 1, 2, 3, 9], logprob = - 1, hists = (), attns = [], coverage = None\<rparr>]
     9 1 True =
   Inr ([\<lparr>sequence = [1, 2, 3, 1, 2, 3], logprob = - 1000000000, hists = (), attns = [], coverage = None\<rparr>],
        [\<lparr>sequence = [0, 1, 2, 3, 4, 5, 6], logprob = - 2, hists = (), attns = [], coverage = None\<rparr>],
        [\<lparr>sequence = [1, 2, 3, 1, 2, 3, 9], logprob = - 1000000000, hists = (), attns = [], coverage = None\<rparr>,
         \<lparr>sequence = [0, 1, 2, 3, 4, 5, 6], logprob = - 2, hists = (), attns = [], coverage = None\<rparr>])"
proof (intro conjI impI)
  assume a: "clean_beam fin beam e bs True = Inr (fin', nb, seen)"
  then obtain fin0 where
    loop: "clean_loop e bs True fin [] [] (sorted_reverse wu_key beam) = Inr (fin0, nb, seen)" and
    fin0: "sorted_by_mean fin0 = Inr fin'"
    by (auto simp: clean_beam_def split: sum.splits)
  from clean_loop_Inr[OF loop] obtain vs pad where
    vs: "seen = [] @ vs" "vs = map (sentinel True) (take (length vs) (sorted_reverse wu_key beam))"
      "fin0 = fin @ map finished_hyp (filter (\<lambda>h. last (sequence h) = e) vs)"
      "nb = [] @ filter (\<lambda>h. last (sequence h) \<noteq> e) vs @ pad"
    by blast
  have m: "mset fin' = mset fin0"
    using sorted_by_mean_Inr[OF fin0] by (simp add: mset_sorted_reverse)
  show "seen = map (sentinel True) (take (length seen) (sorted_reverse wu_key beam))"
    using vs(1,2) by simp
  show "take (length (filter (\<lambda>h. last (sequence h) \<noteq> e) seen)) nb
        = filter (\<lambda>h. last (sequence h) \<noteq> e) seen"
    using vs(1,4) by simp
  show "mset fin' = mset fin + mset (map finished_hyp (filter (\<lambda>h. last (sequence h) = e) seen))"
    using m vs(1,3) by simp
next
  show "clean_beam []
     [\<lparr>sequence = [0, 1, 2, 3, 4, 5, 6], logprob = - 2, hists = (), attns = [], coverage = None\<rparr>,
      \<lparr>sequence = [0, 1, 2, 3, 1, 2, 3], logprob = - 1, hists = (), attns = [], coverage = None\<rparr>]
     9 1 True =
   Inr ([],
        [\<lparr>sequence = [0, 1, 2, 3, 1, 2, 3], logprob = - 1000000000, hists = (), attns = [], coverage = None\<rparr>],
        [\<lparr>sequence = [0, 1, 2, 3, 1, 2, 3], logprob = - 1000000000, hists = (), attns = [], coverage = None\<rparr>])"
    by (simp add: eval_simps)
next
  show "clean_beam []
     [\<lparr>sequence = [0, 1, 2, 3, 4, 5, 6], logprob = - 2, hists = (), attns = [], coverage = None\<rparr>,
      \<lparr>sequence = [1, 2, 3, 1, 2, 3, 9], logprob = - 1, hists = (), attns = [], coverage = None\<rparr>]
     9 1 True =
   Inr ([\<lparr>sequence = [1, 2, 3, 1, 2, 3], logprob = - 1000000000, hists = (), attns = [], coverage = None\<rparr>],
        [\<lparr>sequence = [0, 1, 2, 3, 4, 5, 6], logprob = - 2, hists = (), attns = [], coverage = None\<rparr>],
        [\<lparr>sequence = [1, 2, 3, 1, 2, 3, 9], logprob = - 1000000000, hists = (), attns = [], coverage = None\<rparr>,
         \<lparr>sequence = [0, 1, 2, 3, 4, 5, 6], logprob = - 2, hists = (), attns = [], coverage = None\<rparr>])"
    by (simp add: eval_simps)
qed

theorem clean_beam_ranks_by_original_score_witness:
  "clean_beam []
     [\<lparr>sequence = [0, 1, 2, 3, 4, 5, 6], logprob = - 2, hists = (), attns = [], coverage = None\<rparr>,
      \<lparr>sequence = [0, 1, 2, 3, 4, 5, 9], logprob = - 3, hists = (), attns = [], coverage = None\<rparr>,
      \<lparr>sequence = [0, 1, 2, 3, 1, 2, 3], logprob = - 1, hists = (), attns = [], coverage = None\<rparr>]
     9 2 True =
   Inr ([],
        [\<lparr>sequence = [0, 1, 2, 3, 1, 2, 3], logprob = - 1000000000, hists = (), attns = [], coverage = None\<rparr>,
         \<lparr>sequence = [0, 1, 2, 3, 4, 5, 6], logprob = - 2, hists = (), attns = [], coverage = None\<rparr>],
        [\<lparr>sequence = [0, 1, 2, 3, 1, 2, 3], logprob = - 1000000000, hists = (), attns = [], coverage = None\<rparr>,
         \<lparr>sequence = [0, 1, 2, 3, 4, 5, 6], logprob = - 2, hists = (), attns = [], coverage = None\<rparr>]) \<and>
   [\<lparr>sequence = [0, 1, 2, 3, 1, 2, 3], logprob = - 1000000000, hists = (), attns = [], coverage = None\<rparr>,
    \<lparr>sequence = [0, 1, 2, 3, 4, 5, 6], logprob = - 2, hists = (), attns = [], coverage = None\<rparr>]
     = map (sentinel True) (take 2 (sorted_reverse wu_key
         [\<lparr>sequence = [0, 1, 2, 3, 4, 5, 6], logprob = - 2, hists = (), attns = [], coverage = None\<rparr>,
          \<lparr>sequence = [0, 1, 2, 3, 4, 5, 9], logprob = - 3, hists = (), attns = [], coverage = None\<rparr>,
          \<lparr>sequence = [0, 1, 2, 3, 1, 2, 3], logprob = - 1, hists = (), attns = [], coverage = None\<rparr>]))"
proof -
  let ?rep = "\<lparr>sequence = [0, 1, 2, 3, 1, 2, 3], logprob = - 1, hists = (), attns = [], coverage = None\<rparr>"
  let ?ok = "\<lparr>sequence = [0, 1, 2, 3, 4, 5, 6], logprob = - 2, hists = (), attns = [], coverage = None\<rparr>"
  let ?okend = "\<lparr>sequence = [0, 1, 2, 3, 4, 5, 9], logprob = - 3, hists = (), attns = [], coverage = None\<rparr>"
  have a: "clean_beam [] [?ok, ?okend, ?rep] 9 2 True
             = Inr ([], [?rep\<lparr>logprob := - 1000000000\<rparr>, ?ok], [?rep\<lparr>logprob := - 1000000000\<rparr>, ?ok])"
    by (simp add: eval_simps)
  from clean_beam_ranks_by_original_score
         [of "[]" "[?ok, ?okend, ?rep]" 9 2 "[]" "[?rep\<lparr>logprob := - 1000000000\<rparr>, ?ok]"
             "[?rep\<lparr>logprob := - 1000000000\<rparr>, ?ok]"] a
  have "[?rep\<lparr>logprob := - 1000000000\<rparr>, ?ok]
          = map (sentinel True)
              (take (length [?rep\<lparr>logprob := - 1000000000\<rparr>, ?ok])
                 (sorted_reverse wu_key [?ok, ?okend, ?rep]))"
    by blast
  moreover have "length [?rep\<lparr>logprob := - 1000000000\<rparr>, ?ok] = 2" by simp
  ultimately have "[?rep\<lparr>logprob := - 1000000000\<rparr>, ?ok]
          = map (sentinel True) (take 2 (sorted_reverse wu_key [?ok, ?okend, ?rep]))"
    by (simp only:)
  with a show ?thesis by simp
qed

subsection \<open>Packing and unpacking\<close>

lemma collect_map_Inr:
  "(\<And>x. x \<in> set xs \<Longrightarrow> f x = Inr (g x)) \<Longrightarrow> collect (map f xs) = Inr (map g xs)"
  by (induction xs) simp_all

lemma collect_cong:
  assumes "\<And>x. x \<in> set xs \<Longrightarrow> f x = g x"
  shows "collect (map f xs) = collect (map g xs)"
proof -
  have "map f xs = map g xs" by (rule map_cong[OF refl]) (rule assms)
  then show ?thesis by (rule arg_cong)
qed

lemma collect_Inr_length: "collect xs = Inr ys \<Longrightarrow> length ys = length xs"
proof (induction xs arbitrary: ys)
  case Nil
  then show ?case by simp
next
  case (Cons x xs)
  from Cons.prems obtain v vs where "x = Inr v" "collect xs = Inr vs" "ys = v # vs"
    by (auto split: sum.splits)
  with Cons.IH show ?case by simp
qed

lemma collect_Inr_nth:
  "collect xs = Inr ys \<Longrightarrow> i < length xs \<Longrightarrow> xs ! i = Inr (ys ! i)"
proof (induction xs arbitrary: ys i)
  case Nil
  then show ?case by simp
next
  case (Cons x xs)
  from Cons.prems(1) obtain v vs where *: "x = Inr v" "collect xs = Inr vs" "ys = v # vs"
    by (auto split: sum.splits)
  show ?case
  proof (cases i)
    case 0
    with * show ?thesis by simp
  next
    case (Suc j)
    with Cons.prems(2) have "j < length xs" by simp
    from Cons.IH[OF *(2) this] Suc * show ?thesis by simp
  qed
qed

lemma collect_Inl_ex:
  "Inl e \<in> set xs \<Longrightarrow> \<exists>e'. collect xs = Inl e'"
proof (induction xs)
  case Nil
  then show ?case by simp
next
  case (Cons x xs)
  show ?case
  proof (cases x)
    case (Inl a)
    then show ?thesis by simp
  next
    case (Inr v)
    with Cons.prems have "Inl e \<in> set xs" by auto
    from Cons.IH[OF this] Inr show ?thesis by auto
  qed
qed

lemma collect_take:
  "collect xs = Inr ys \<Longrightarrow> collect (take n xs) = Inr (take n ys)"
proof (induction xs arbitrary: ys n)
  case Nil
  then show ?case by simp
next
  case (Cons x xs)
  from Cons.prems(1) obtain v vs where *: "x = Inr v" "collect xs = Inr vs" "ys = v # vs"
    by (auto split: sum.splits)
  show ?case
  proof (cases n)
    case 0
    then show ?thesis by simp
  next
    case (Suc m)
    from Cons.IH[OF *(2), of m] Suc * show ?thesis by simp
  qed
qed

lemma select_mid_stack_dim1:
  assumes st: "stack_dim1 shape ts = Inr s"
    and sh: "\<And>a b. shape a = shape b \<Longrightarrow> length a = length b"
    and i: "i < length ts"
  shows "select_mid s i = Inr (ts ! i)"
proof -
  have ne: "ts \<noteq> []"
    using st by (cases "ts = []") (simp_all add: stack_dim1_def)
  have nex: "\<not> list_ex (\<lambda>t. shape t \<noteq> shape (hd ts)) ts"
    using st ne by (cases "list_ex (\<lambda>t. shape t \<noteq> shape (hd ts)) ts") (simp_all add: stack_dim1_def)
  from nex have all: "\<forall>t \<in> set ts. shape t = shape (hd ts)"
    by (simp add: list_ex_iff)
  have "stack_dim1 shape ts = Inr (map (\<lambda>l. map (\<lambda>t. t ! l) ts) [0..<length (hd ts)])"
    using ne nex by (simp only: stack_dim1_def if_False)
  with st have s: "s = map (\<lambda>l. map (\<lambda>t. t ! l) ts) [0..<length (hd ts)]"
    by (simp only: sum.inject)
  from i have "ts ! i \<in> set ts" by simp
  with all have "shape (ts ! i) = shape (hd ts)" by blast
  then have len: "length (ts ! i) = length (hd ts)" by (rule sh)
  have "\<not> list_ex (\<lambda>row. length row \<le> i) s"
    using i by (simp add: s list_ex_iff)
  moreover have "map (\<lambda>row. row ! i) s = ts ! i"
  proof (rule nth_equalityI)
    show "length (map (\<lambda>row. row ! i) s) = length (ts ! i)"
      using len by (simp add: s)
    fix l assume "l < length (map (\<lambda>row. row ! i) s)"
    then have "l < length (hd ts)" by (simp add: s)
    then show "map (\<lambda>row. row ! i) s ! l = ts ! i ! l"
      using i by (simp add: s)
  qed
  ultimately show ?thesis by (simp add: select_mid_def)
qed

lemma select_row_stack_dim0:
  assumes "stack_dim0 shape ts = Inr s" "i < length ts"
  shows "select_row s i = Inr (ts ! i)"
  using assms by (simp add: stack_dim0_def select_row_def split: if_splits)

lemma select_mid_take:
  assumes i: "i < n"
  shows "select_mid (map (take n) t) i = select_mid t i"
proof -
  have "list_ex (\<lambda>row. length row \<le> i) (map (take n) t) = list_ex (\<lambda>row. length row \<le> i) t"
    using i by (induction t) auto
  moreover have "map (\<lambda>row. row ! i) (map (take n) t) = map (\<lambda>row. row ! i) t"
    using i by simp
  ultimately show ?thesis by (simp only: select_mid_def)
qed

lemma select_row_take:
  assumes "i < n"
  shows "select_row (take n t) i = select_row t i"
proof (cases "i < length t")
  case True
  with assms have "i < length (take n t)" "take n t ! i = t ! i" by simp_all
  with True show ?thesis by (simp only: select_row_def if_True)
next
  case False
  then have "\<not> i < length (take n t)" by simp
  with False show ?thesis by (simp only: select_row_def if_False)
qed

lemma map_length_eq_imp: "map length a = map length b \<Longrightarrow> length a = length b"
  by (rule map_eq_imp_length_eq)

lemma unpack_hists_Tensor_stack:
  assumes st: "stack_dim1 (map length) ts = Inr s" and l3: "length s \<noteq> 3"
  shows "unpack_hists (Tensor s) (length ts) = Inr (map TensorHists ts)"
proof -
  have "\<And>i. i \<in> set [0..<length ts] \<Longrightarrow>
          map_sum id TensorHists (select_mid s i) = Inr (TensorHists (ts ! i))"
  proof -
    fix i assume "i \<in> set [0..<length ts]"
    then have "i < length ts" by simp
    from select_mid_stack_dim1[OF st map_length_eq_imp this]
    show "map_sum id TensorHists (select_mid s i) = Inr (TensorHists (ts ! i))" by simp
  qed
  then have "collect (map (\<lambda>i. map_sum id TensorHists (select_mid s i)) [0..<length ts])
               = Inr (map (\<lambda>i. TensorHists (ts ! i)) [0..<length ts])"
    by (rule collect_map_Inr)
  moreover have "map (\<lambda>i. TensorHists (ts ! i)) [0..<length ts] = map TensorHists ts"
    by (rule nth_equalityI) simp_all
  ultimately show ?thesis using l3 by (simp add: unpack_hists_def)
qed

lemma unpack_hists_Tuple3_stack:
  assumes h: "stack_dim1 (map length) hs = Inr h"
    and c: "stack_dim1 (map length) cs = Inr c"
    and out: "stack_dim0 length os = Inr out"
    and len: "length hs = n" "length cs = n" "length os = n"
  shows "unpack_hists (Tuple3 h c out) n
           = Inr (map (\<lambda>i. LstmHists (hs ! i) (cs ! i) (os ! i)) [0..<n])"
proof -
  have "\<And>i. i \<in> set [0..<n] \<Longrightarrow>
          slice_lstm h c out i = Inr (LstmHists (hs ! i) (cs ! i) (os ! i))"
  proof -
    fix i assume "i \<in> set [0..<n]"
    then have i: "i < n" by simp
    from i len have ih: "i < length hs" "i < length cs" "i < length os" by simp_all
    have 1: "select_mid h i = Inr (hs ! i)"
      by (rule select_mid_stack_dim1[OF h map_length_eq_imp ih(1)])
    have 2: "select_mid c i = Inr (cs ! i)"
      by (rule select_mid_stack_dim1[OF c map_length_eq_imp ih(2)])
    have 3: "select_row out i = Inr (os ! i)"
      by (rule select_row_stack_dim0[OF out ih(3)])
    show "slice_lstm h c out i = Inr (LstmHists (hs ! i) (cs ! i) (os ! i))"
      by (simp add: slice_lstm_def 1 2 3)
  qed
  then have "collect (map (slice_lstm h c out) [0..<n])
               = Inr (map (\<lambda>i. LstmHists (hs ! i) (cs ! i) (os ! i)) [0..<n])"
    by (rule collect_map_Inr)
  then show ?thesis by (simp add: unpack_hists_def)
qed

lemma collect_last_token:
  "collect (map last_token hyps) = Inr tok \<Longrightarrow> tok = map (\<lambda>h. last (sequence h)) hyps"
proof (induction hyps arbitrary: tok)
  case Nil
  then show ?case by simp
next
  case (Cons h hs)
  from Cons.prems obtain v vs where *: "last_token h = Inr v" "collect (map last_token hs) = Inr vs"
    "tok = v # vs"
    by (auto split: sum.splits)
  from *(1) have "v = last (sequence h)"
    by (cases "sequence h = []") (simp_all add: last_token_def)
  with Cons.IH[OF *(2)] *(3) show ?case by simp
qed

lemma pack_beam_t5_Inr:
  assumes "pack_beam hyps True = Inr (tok, st)"
  shows "collect (map last_token hyps) = Inr tok"
    and "\<not> list_ex (\<lambda>hyp. \<not> is_TensorHists (hists hyp)) hyps"
    and "\<exists>s. st = Tensor s \<and>
           stack_dim1 (map length) (map (\<lambda>hyp. the_TensorHists (hists hyp)) hyps) = Inr s"
proof -
  obtain tk where tk: "collect (map last_token hyps) = Inr tk"
    using assms by (cases "collect (map last_token hyps)") (simp_all add: pack_beam_def)
  have nex: "\<not> list_ex (\<lambda>hyp. \<not> is_TensorHists (hists hyp)) hyps"
    using assms tk
    by (cases "list_ex (\<lambda>hyp. \<not> is_TensorHists (hists hyp)) hyps") (simp_all add: pack_beam_def)
  obtain s where s: "stack_dim1 (map length) (map (\<lambda>hyp. the_TensorHists (hists hyp)) hyps) = Inr s"
    using assms tk nex
    by (cases "stack_dim1 (map length) (map (\<lambda>hyp. the_TensorHists (hists hyp)) hyps)")
       (simp_all add: pack_beam_def)
  from assms tk nex s have eq: "tok = tk" "st = Tensor s"
    by (simp_all add: pack_beam_def)
  from tk eq show "collect (map last_token hyps) = Inr tok" by simp
  from nex show "\<not> list_ex (\<lambda>hyp. \<not> is_TensorHists (hists hyp)) hyps" .
  from s eq show "\<exists>s. st = Tensor s \<and>
           stack_dim1 (map length) (map (\<lambda>hyp. the_TensorHists (hists hyp)) hyps) = Inr s"
    by simp
qed

lemma TensorHists_the: "is_TensorHists x \<Longrightarrow> TensorHists (the_TensorHists x) = x"
  by (cases x) simp_all

lemma pack_unpack_t5:
  assumes p: "pack_beam hyps True = Inr (tok, Tensor s)" and l3: "length s \<noteq> 3"
  shows "unpack_hists (Tensor s) (length hyps) = Inr (map hists hyps)"
proof -
  let ?ts = "map (\<lambda>hyp. the_TensorHists (hists hyp)) hyps"
  from pack_beam_t5_Inr(3)[OF p] have st: "stack_dim1 (map length) ?ts = Inr s" by simp
  from pack_beam_t5_Inr(2)[OF p] have "\<forall>hyp \<in> set hyps. is_TensorHists (hists hyp)"
    by (simp add: list_ex_iff)
  then have "map TensorHists ?ts = map hists hyps"
    by (simp add: TensorHists_the)
  with unpack_hists_Tensor_stack[OF st l3] show ?thesis by simp
qed

lemma stack_parts_Stacked3:
  assumes "stack_parts d xs = Inr (Stacked3 x)"
  shows "list_all is_Mat xs"
    and "(if d = 0 then stack_dim0 (map length) (map the_Mat xs)
          else stack_dim1 (map length) (map the_Mat xs)) = Inr x"
proof -
  have ne: "xs \<noteq> []" using assms by (cases "xs = []") (simp_all add: stack_parts_def)
  show m: "list_all is_Mat xs"
  proof (rule ccontr)
    assume n: "\<not> list_all is_Mat xs"
    show False
    proof (cases "list_all (\<lambda>x. \<not> is_Mat x) xs")
      case True
      with assms ne n show False 
        by (cases "if d = 0 then stack_dim0 length (map the_Vec xs)
           else stack_dim1 length (map the_Vec xs)") (simp_all add: stack_parts_def)
    next
      case False
      with assms ne n show False by (simp add: stack_parts_def)
    qed
  qed
  from assms ne m show "(if d = 0 then stack_dim0 (map length) (map the_Mat xs)
          else stack_dim1 (map length) (map the_Mat xs)) = Inr x"
    by (cases "if d = 0 then stack_dim0 (map length) (map the_Mat xs)
          else stack_dim1 (map length) (map the_Mat xs)") (simp_all add: stack_parts_def)
qed

lemma stack_parts_Stacked2:
  assumes "stack_parts d xs = Inr (Stacked2 x)"
  shows "list_all (\<lambda>x. \<not> is_Mat x) xs"
    and "(if d = 0 then stack_dim0 length (map the_Vec xs)
          else stack_dim1 length (map the_Vec xs)) = Inr x"
proof -
  have ne: "xs \<noteq> []" using assms by (cases "xs = []") (simp_all add: stack_parts_def)
  have n: "\<not> list_all is_Mat xs"
  proof
    assume m: "list_all is_Mat xs"
    with assms ne show False
      by (cases "if d = 0 then stack_dim0 (map length) (map the_Mat xs)
          else stack_dim1 (map length) (map the_Mat xs)") (simp_all add: stack_parts_def)
  qed
  show v: "list_all (\<lambda>x. \<not> is_Mat x) xs"
    using assms ne n by (cases "list_all (\<lambda>x. \<not> is_Mat x) xs") (simp_all add: stack_parts_def)
  from assms ne n v show "(if d = 0 then stack_dim0 length (map the_Vec xs)
          else stack_dim1 length (map the_Vec xs)) = Inr x"
    by (cases "if d = 0 then stack_dim0 length (map the_Vec xs)
          else stack_dim1 length (map the_Vec xs)") (simp_all add: stack_parts_def)
qed

lemma stack_hists_part_Inr:
  assumes "stack_hists_part hyps i d = Inr r"
  shows "\<exists>xs. collect (map (\<lambda>hyp. hists_index (hists hyp) i) hyps) = Inr xs \<and>
              stack_parts d xs = Inr r"
  using assms
  by (cases "collect (map (\<lambda>hyp. hists_index (hists hyp) i) hyps)")
     (simp_all add: stack_hists_part_def)

lemma pack_beam_lstm_Inr:
  assumes "pack_beam hyps False = Inr (tok, st)"
  shows "collect (map last_token hyps) = Inr tok"
    and "\<exists>a b c. st = Packed a b c \<and> stack_hists_part hyps 0 1 = Inr a \<and>
           stack_hists_part hyps 1 1 = Inr b \<and> stack_hists_part hyps 2 0 = Inr c"
proof -
  obtain tk where tk: "collect (map last_token hyps) = Inr tk"
    using assms by (cases "collect (map last_token hyps)") (simp_all add: pack_beam_def)
  obtain a where a: "stack_hists_part hyps 0 1 = Inr a"
    using assms tk by (cases "stack_hists_part hyps 0 1") (simp_all add: pack_beam_def)
  obtain b where b: "stack_hists_part hyps 1 1 = Inr b"
    using assms tk a by (cases "stack_hists_part hyps 1 1") (simp_all add: pack_beam_def)
  obtain c where c: "stack_hists_part hyps 2 0 = Inr c"
    using assms tk a b by (cases "stack_hists_part hyps 2 0") (simp_all add: pack_beam_def)
  from assms tk a b c have eq: "tok = tk" "st = Packed a b c"
    by (simp_all add: pack_beam_def)
  from tk eq show "collect (map last_token hyps) = Inr tok" by simp
  from a b c eq show "\<exists>a b c. st = Packed a b c \<and> stack_hists_part hyps 0 1 = Inr a \<and>
           stack_hists_part hyps 1 1 = Inr b \<and> stack_hists_part hyps 2 0 = Inr c"
    by simp
qed

lemma pack_unpack_lstm:
  assumes p: "pack_beam hyps False = Inr (tok, Packed (Stacked3 h) (Stacked3 c) (Stacked2 out))"
  shows "unpack_hists (Tuple3 h c out) (length hyps) = Inr (map hists hyps)"
proof -
  let ?n = "length hyps"
  from pack_beam_lstm_Inr(2)[OF p]
  have sp: "stack_hists_part hyps 0 1 = Inr (Stacked3 h)"
    "stack_hists_part hyps 1 1 = Inr (Stacked3 c)"
    "stack_hists_part hyps 2 0 = Inr (Stacked2 out)"
    by simp_all
  from stack_hists_part_Inr[OF sp(1)] obtain xs0 where
    x0: "collect (map (\<lambda>hyp. hists_index (hists hyp) 0) hyps) = Inr xs0"
      "stack_parts 1 xs0 = Inr (Stacked3 h)" by blast
  from stack_hists_part_Inr[OF sp(2)] obtain xs1 where
    x1: "collect (map (\<lambda>hyp. hists_index (hists hyp) 1) hyps) = Inr xs1"
      "stack_parts 1 xs1 = Inr (Stacked3 c)" by blast
  from stack_hists_part_Inr[OF sp(3)] obtain xs2 where
    x2: "collect (map (\<lambda>hyp. hists_index (hists hyp) 2) hyps) = Inr xs2"
      "stack_parts 0 xs2 = Inr (Stacked2 out)" by blast
  from stack_parts_Stacked3[OF x0(2)] have m0: "list_all is_Mat xs0"
    and s0: "stack_dim1 (map length) (map the_Mat xs0) = Inr h" by simp_all
  from stack_parts_Stacked3[OF x1(2)]
  have s1: "stack_dim1 (map length) (map the_Mat xs1) = Inr c" by simp
  from stack_parts_Stacked2[OF x2(2)]
  have s2: "stack_dim0 length (map the_Vec xs2) = Inr out" by simp
  have l0: "length xs0 = ?n" using collect_Inr_length[OF x0(1)] by simp
  have l1: "length xs1 = ?n" using collect_Inr_length[OF x1(1)] by simp
  have l2: "length xs2 = ?n" using collect_Inr_length[OF x2(1)] by simp
  have u: "unpack_hists (Tuple3 h c out) ?n
             = Inr (map (\<lambda>i. LstmHists (map the_Mat xs0 ! i) (map the_Mat xs1 ! i)
                                  (map the_Vec xs2 ! i)) [0..<?n])"
    by (rule unpack_hists_Tuple3_stack[OF s0 s1 s2]) (simp_all add: l0 l1 l2)
  have "map (\<lambda>i. LstmHists (map the_Mat xs0 ! i) (map the_Mat xs1 ! i)
                     (map the_Vec xs2 ! i)) [0..<?n] = map hists hyps"
  proof (rule nth_equalityI)
    show "length (map (\<lambda>i. LstmHists (map the_Mat xs0 ! i) (map the_Mat xs1 ! i)
                     (map the_Vec xs2 ! i)) [0..<?n]) = length (map hists hyps)" by simp
    fix k assume "k < length (map (\<lambda>i. LstmHists (map the_Mat xs0 ! i) (map the_Mat xs1 ! i)
                     (map the_Vec xs2 ! i)) [0..<?n])"
    then have k: "k < ?n" by simp
    then have km: "k < length (map (\<lambda>hyp. hists_index (hists hyp) 0) hyps)"
      "k < length (map (\<lambda>hyp. hists_index (hists hyp) 1) hyps)"
      "k < length (map (\<lambda>hyp. hists_index (hists hyp) 2) hyps)" by simp_all
    from collect_Inr_nth[OF x0(1) km(1)] k
    have i0: "hists_index (hists (hyps ! k)) 0 = Inr (xs0 ! k)" by simp
    from collect_Inr_nth[OF x1(1) km(2)] k
    have i1: "hists_index (hists (hyps ! k)) 1 = Inr (xs1 ! k)" by simp
    from collect_Inr_nth[OF x2(1) km(3)] k
    have i2: "hists_index (hists (hyps ! k)) 2 = Inr (xs2 ! k)" by simp
    from m0 k l0 have mk: "is_Mat (xs0 ! k)" by (simp add: list_all_length)
    have "hists (hyps ! k) = LstmHists (the_Mat (xs0 ! k)) (the_Mat (xs1 ! k)) (the_Vec (xs2 ! k))"
    proof (cases "hists (hyps ! k)")
      case (LstmHists a b d)
      with i0 i1 i2 have "xs0 ! k = Mat a" "xs1 ! k = Mat b" "xs2 ! k = Vec d" by simp_all
      with LstmHists show ?thesis by simp
    next
      case (TensorHists t)
      with i0 have "xs0 ! k = Vec (t ! 0)"
        by (cases "0 < length t") simp_all
      with mk show ?thesis by simp
    qed
    with k l0 l1 l2
    show "map (\<lambda>i. LstmHists (map the_Mat xs0 ! i) (map the_Mat xs1 ! i)
                     (map the_Vec xs2 ! i)) [0..<?n] ! k = map hists hyps ! k"
      by simp
  qed
  with u show ?thesis by simp
qed

lemma unpack_topk_None:
  "unpack_hists st (length topk) = Inr ks \<Longrightarrow> unpack_topk topk lp st None = Inr (topk, lp, ks, None)"
  by (simp add: unpack_topk_def)

lemmas pack_simps = pack_beam_def last_token_def stack_dim1_def stack_dim0_def
  stack_hists_part_def stack_parts_def unpack_topk_def unpack_hists_def slice_lstm_def
  select_mid_def select_row_def upt_rec


text \<open>
  Claim C4, as the code has it. The claim is that unpacking the state batch that
  \<^verbatim>\<open>pack_beam\<close> returns, unchanged, gives back every hypothesis's state, under both state
  conventions. It fails in both: the nested pair \<^verbatim>\<open>((h, c), out)\<close> that \<^verbatim>\<open>pack_beam\<close>
  returns has length 2, so \<^verbatim>\<open>_unpack_topk\<close> treats it as a single tensor and raises
  \<^verbatim>\<open>TypeError\<close>; and a single-tensor state whose first size is 3 is treated as a triple
  and raises \<^verbatim>\<open>IndexError\<close>.
\<close>

theorem pack_unpack_unchanged_raises:
  "pack_beam
     [\<lparr>sequence = [0, 5], logprob = - 1, hists = LstmHists [[1 :: real]] [[2]] [3],
       attns = [], coverage = None\<rparr>] False
     = Inr ([5], Packed (Stacked3 [[[1]]]) (Stacked3 [[[2]]]) (Stacked2 [[3]])) \<and>
   unpack_topk [[7]] [[- 1]]
     (Packed (Stacked3 [[[1 :: real]]]) (Stacked3 [[[2]]]) (Stacked2 [[3]])) None
     = Inl TypeError \<and>
   pack_beam
     [\<lparr>sequence = [0, 5], logprob = - 1, hists = TensorHists [[1 :: real], [2], [3]],
       attns = [], coverage = None\<rparr>] True
     = Inr ([5], Tensor [[[1]], [[2]], [[3]]]) \<and>
   unpack_topk [[7]] [[- 1]] (Tensor [[[1 :: real]], [[2]], [[3]]]) None = Inl IndexError"
  by (simp add: pack_simps)


text \<open>
  Claim C4, amended. Whenever \<^verbatim>\<open>pack_beam\<close> returns, its token tensor lists the last token
  of every hypothesis in order; and for a top-k batch with one row per hypothesis,
  \<^verbatim>\<open>_unpack_topk\<close> returns the state of every hypothesis, in order,
  \<^item> from the packed single tensor, when its first size is not 3;
  \<^item> from the triple \<^verbatim>\<open>(h, c, out)\<close> of the three tensors that \<^verbatim>\<open>pack_beam\<close> returns as
    \<^verbatim>\<open>((h, c), out)\<close>.
\<close>

theorem pack_unpack_roundtrip:
  "(pack_beam hyps True = Inr (token, Tensor s) \<and> length s \<noteq> 3 \<and> length topk = length hyps \<longrightarrow>
      token = map (\<lambda>h. last (sequence h)) hyps \<and>
      unpack_topk topk lp (Tensor s) None = Inr (topk, lp, map hists hyps, None)) \<and>
   (pack_beam hyps False = Inr (token', Packed (Stacked3 h) (Stacked3 c) (Stacked2 out)) \<and>
      length topk = length hyps \<longrightarrow>
      token' = map (\<lambda>h. last (sequence h)) hyps \<and>
      unpack_topk topk lp (Tuple3 h c out) None = Inr (topk, lp, map hists hyps, None))"
proof (intro conjI impI)
  assume a: "pack_beam hyps True = Inr (token, Tensor s) \<and> length s \<noteq> 3 \<and> length topk = length hyps"
  then have p: "pack_beam hyps True = Inr (token, Tensor s)" and l3: "length s \<noteq> 3"
    and n: "length topk = length hyps" by simp_all
  show "token = map (\<lambda>h. last (sequence h)) hyps"
    by (rule collect_last_token[OF pack_beam_t5_Inr(1)[OF p]])
  from pack_unpack_t5[OF p l3] n
  have "unpack_hists (Tensor s) (length topk) = Inr (map hists hyps)" by simp
  then show "unpack_topk topk lp (Tensor s) None = Inr (topk, lp, map hists hyps, None)"
    by (rule unpack_topk_None)
next
  assume a: "pack_beam hyps False = Inr (token', Packed (Stacked3 h) (Stacked3 c) (Stacked2 out)) \<and>
      length topk = length hyps"
  then have p: "pack_beam hyps False = Inr (token', Packed (Stacked3 h) (Stacked3 c) (Stacked2 out))"
    and n: "length topk = length hyps" by simp_all
  show "token' = map (\<lambda>h. last (sequence h)) hyps"
    by (rule collect_last_token[OF pack_beam_lstm_Inr(1)[OF p]])
  from pack_unpack_lstm[OF p] n
  have "unpack_hists (Tuple3 h c out) (length topk) = Inr (map hists hyps)" by simp
  then show "unpack_topk topk lp (Tuple3 h c out) None = Inr (topk, lp, map hists hyps, None)"
    by (rule unpack_topk_None)
qed


theorem pack_unpack_roundtrip_witness:
  "pack_beam
     [\<lparr>sequence = [0, 5], logprob = - 1, hists = TensorHists [[1 :: real, 2], [3, 4]],
       attns = [], coverage = None\<rparr>,
      \<lparr>sequence = [0, 6], logprob = - 2, hists = TensorHists [[5, 6], [7, 8]],
       attns = [], coverage = None\<rparr>] True
     = Inr ([5, 6], Tensor [[[1, 2], [5, 6]], [[3, 4], [7, 8]]]) \<and>
   unpack_topk [[7], [8]] [[- 1], [- 2]] (Tensor [[[1 :: real, 2], [5, 6]], [[3, 4], [7, 8]]]) None
     = Inr ([[7], [8]], [[- 1], [- 2]],
            [TensorHists [[1, 2], [3, 4]], TensorHists [[5, 6], [7, 8]]], None) \<and>
   pack_beam
     [\<lparr>sequence = [0, 5], logprob = - 1, hists = LstmHists [[1 :: real, 2]] [[3, 4]] [9],
       attns = [], coverage = None\<rparr>,
      \<lparr>sequence = [0, 6], logprob = - 2, hists = LstmHists [[5, 6]] [[7, 8]] [10],
       attns = [], coverage = None\<rparr>] False
     = Inr ([5, 6], Packed (Stacked3 [[[1, 2], [5, 6]]]) (Stacked3 [[[3, 4], [7, 8]]])
                      (Stacked2 [[9], [10]])) \<and>
   unpack_topk [[7], [8]] [[- 1], [- 2]]
     (Tuple3 [[[1 :: real, 2], [5, 6]]] [[[3, 4], [7, 8]]] [[9], [10]]) None
     = Inr ([[7], [8]], [[- 1], [- 2]],
            [LstmHists [[1, 2]] [[3, 4]] [9], LstmHists [[5, 6]] [[7, 8]] [10]], None)"
proof -
  let ?t1 = "\<lparr>sequence = [0, 5], logprob = - 1, hists = TensorHists [[1 :: real, 2], [3, 4]],
       attns = [], coverage = None\<rparr>"
  let ?t2 = "\<lparr>sequence = [0, 6], logprob = - 2, hists = TensorHists [[5 :: real, 6], [7, 8]],
       attns = [], coverage = None\<rparr>"
  let ?l1 = "\<lparr>sequence = [0, 5], logprob = - 1, hists = LstmHists [[1 :: real, 2]] [[3, 4]] [9],
       attns = [], coverage = None\<rparr>"
  let ?l2 = "\<lparr>sequence = [0, 6], logprob = - 2, hists = LstmHists [[5 :: real, 6]] [[7, 8]] [10],
       attns = [], coverage = None\<rparr>"
  have a: "pack_beam [?t1, ?t2] True = Inr ([5, 6], Tensor [[[1, 2], [5, 6]], [[3, 4], [7, 8]]])"
    by (simp add: pack_simps)
  have b: "pack_beam [?l1, ?l2] False
             = Inr ([5, 6], Packed (Stacked3 [[[1, 2], [5, 6]]]) (Stacked3 [[[3, 4], [7, 8]]])
                      (Stacked2 [[9], [10]]))"
    by (simp add: pack_simps)
  from pack_unpack_roundtrip
         [where hyps = "[?t1, ?t2]" and token = "[5, 6]"
            and s = "[[[1, 2], [5, 6]], [[3, 4], [7, 8]]]" and topk = "[[7], [8]]"
            and lp = "[[- 1], [- 2]]"] a
  have c: "unpack_topk [[7], [8]] [[- 1], [- 2]] (Tensor [[[1 :: real, 2], [5, 6]], [[3, 4], [7, 8]]]) None
     = Inr ([[7], [8]], [[- 1], [- 2]],
            [TensorHists [[1, 2], [3, 4]], TensorHists [[5, 6], [7, 8]]], None)"
    by simp
  from pack_unpack_roundtrip
         [where hyps = "[?l1, ?l2]" and token' = "[5, 6]" and h = "[[[1, 2], [5, 6]]]"
            and c = "[[[3, 4], [7, 8]]]" and out = "[[9], [10]]" and topk = "[[7], [8]]"
            and lp = "[[- 1], [- 2]]"] b
  have d: "unpack_topk [[7], [8]] [[- 1], [- 2]]
     (Tuple3 [[[1 :: real, 2], [5, 6]]] [[[3, 4], [7, 8]]] [[9], [10]]) None
     = Inr ([[7], [8]], [[- 1], [- 2]],
            [LstmHists [[1, 2]] [[3, 4]] [9], LstmHists [[5, 6]] [[7, 8]] [10]], None)"
    by simp
  from a b c d show ?thesis by (intro conjI)
qed

subsection \<open>The beam step and the sizes of its batches\<close>

lemma collect_upt_take:
  assumes "collect (map f [0..<m]) = Inr ks" and "n \<le> m"
  shows "collect (map f [0..<n]) = Inr (take n ks)"
proof -
  from assms(2) have "map f [0..<n] = take n (map f [0..<m])"
    by (simp add: take_map min_def)
  with collect_take[OF assms(1), of n] show ?thesis by simp
qed

lemma slice_lstm_take:
  assumes "i < n"
  shows "slice_lstm (map (take n) h) (map (take n) c) (take n out) i = slice_lstm h c out i"
  by (simp only: slice_lstm_def select_mid_take[OF assms] select_row_take[OF assms])

lemma unpack_hists_narrow:
  assumes u: "unpack_hists st m = Inr ks" and n: "n \<le> m"
  shows "unpack_hists (narrow n st) n = Inr (take n ks)"
proof (cases st)
  case (Packed a b c)
  with u have "m = 0" "ks = []"
    by (cases "m = 0"; simp add: unpack_hists_def)+
  with n Packed show ?thesis by (simp add: unpack_hists_def narrow_def)
next
  case (Tuple3 h c out)
  with u have "collect (map (slice_lstm h c out) [0..<m]) = Inr ks"
    by (simp add: unpack_hists_def)
  from collect_upt_take[OF this n]
  have "collect (map (slice_lstm h c out) [0..<n]) = Inr (take n ks)" .
  moreover have "collect (map (slice_lstm (map (take n) h) (map (take n) c) (take n out)) [0..<n])
                   = collect (map (slice_lstm h c out) [0..<n])"
    by (rule collect_cong) (simp add: slice_lstm_take)
  ultimately show ?thesis using Tuple3 by (simp add: unpack_hists_def narrow_def)
next
  case (Tensor t)
  show ?thesis
  proof (cases "length t = 3")
    case True
    with u Tensor have "m = 0" "ks = []"
      by (cases "m = 0"; simp add: unpack_hists_def)+
    with n Tensor True show ?thesis by (simp add: unpack_hists_def narrow_def)
  next
    case False
    with u Tensor
    have "collect (map (\<lambda>i. map_sum id TensorHists (select_mid t i)) [0..<m]) = Inr ks"
      by (simp add: unpack_hists_def)
    from collect_upt_take[OF this n]
    have "collect (map (\<lambda>i. map_sum id TensorHists (select_mid t i)) [0..<n]) = Inr (take n ks)" .
    moreover have "collect (map (\<lambda>i. map_sum id TensorHists (select_mid (map (take n) t) i)) [0..<n])
                   = collect (map (\<lambda>i. map_sum id TensorHists (select_mid t i)) [0..<n])"
      by (rule collect_cong) (simp add: select_mid_take)
    ultimately show ?thesis using Tensor False by (simp add: unpack_hists_def narrow_def)
  qed
qed

lemma collect_select_row_take:
  assumes "collect (map (select_row a) [0..<m]) = Inr as" and n: "n \<le> m"
  shows "collect (map (select_row (take n a)) [0..<n]) = Inr (take n as)"
proof -
  have "collect (map (select_row (take n a)) [0..<n]) = collect (map (select_row a) [0..<n])"
    by (rule collect_cong) (simp add: select_row_take)
  with collect_upt_take[OF assms] show ?thesis by simp
qed

lemma unpack_topk_Some_Inr:
  assumes "unpack_topk topk lp st (Some a) = Inr r"
  shows "\<exists>ks as. unpack_hists st (length topk) = Inr ks \<and>
           collect (map (select_row a) [0..<length topk]) = Inr as \<and>
           r = (topk, lp, ks, Some as)"
proof -
  obtain ks where ks: "unpack_hists st (length topk) = Inr ks"
    using assms by (cases "unpack_hists st (length topk)") (simp_all add: unpack_topk_def)
  obtain as where as: "collect (map (select_row a) [0..<length topk]) = Inr as"
    using assms ks
    by (cases "collect (map (select_row a) [0..<length topk])") (simp_all add: unpack_topk_def)
  from assms ks as have "r = (topk, lp, ks, Some as)" by (simp add: unpack_topk_def)
  with ks as show ?thesis by blast
qed

lemma unpack_topk_narrow:
  assumes u: "unpack_topk topk lp st (Some a) = Inr (ts, ls, ks, Some as)" and n: "n \<le> length topk"
  shows "unpack_topk (take n topk) (take n lp) (narrow n st) (Some (take n a))
           = Inr (take n ts, take n ls, take n ks, Some (take n as))"
proof -
  from unpack_topk_Some_Inr[OF u] have
    ks: "unpack_hists st (length topk) = Inr ks" and
    as: "collect (map (select_row a) [0..<length topk]) = Inr as" and
    eq: "ts = topk" "ls = lp"
    by auto
  from n have len: "length (take n topk) = n" by simp
  from unpack_hists_narrow[OF ks n] collect_select_row_take[OF as n] eq
  show ?thesis by (simp only: unpack_topk_def Let_def len sum.case option.case)
qed

lemma extend_beam_take:
  "extend_beam beam (take (length beam) ts) (take (length beam) ls) (take (length beam) hs)
     (take (length beam) as) d = extend_beam beam ts ls hs as d"
  unfolding extend_beam_def
proof (rule collect_cong)
  fix x assume "x \<in> set (enumerate 0 beam)"
  then have "fst x < length beam" by (simp add: in_set_enumerate_eq)
  then obtain i h where x: "x = (i, h)" and i: "i < length beam"
    by (cases x) simp
  from i have "(i < length (take (length beam) ts)) = (i < length ts)"
    "(i < length (take (length beam) ls)) = (i < length ls)"
    "(i < length (take (length beam) hs)) = (i < length hs)"
    "(i < length (take (length beam) as)) = (i < length as)"
    "take (length beam) ts ! i = ts ! i" "take (length beam) ls ! i = ls ! i"
    "take (length beam) hs ! i = hs ! i" "take (length beam) as ! i = as ! i"
    by simp_all
  then show "(case x of (i, h) \<Rightarrow>
            if i < length (take (length beam) ts) \<and> i < length (take (length beam) ls) \<and>
               i < length (take (length beam) hs) \<and> i < length (take (length beam) as)
            then extend_k h (take (length beam) ts ! i) (take (length beam) ls ! i)
                   (take (length beam) hs ! i) (Some (take (length beam) as ! i)) d
            else Inl IndexError) =
          (case x of (i, h) \<Rightarrow>
            if i < length ts \<and> i < length ls \<and> i < length hs \<and> i < length as
            then extend_k h (ts ! i) (ls ! i) (hs ! i) (Some (as ! i)) d
            else Inl IndexError)"
    by (simp only: x prod.case)
qed

lemma extend_beam_too_long:
  assumes "length ts < length beam"
  shows "\<exists>err. extend_beam beam ts ls hs as d = Inl err"
proof -
  let ?f = "\<lambda>(i, h). if i < length ts \<and> i < length ls \<and> i < length hs \<and> i < length as
              then extend_k h (ts ! i) (ls ! i) (hs ! i) (Some (as ! i)) d
              else Inl IndexError"
  from assms have "(length ts, beam ! length ts) \<in> set (enumerate 0 beam)"
    by (simp add: in_set_enumerate_eq)
  then have "?f (length ts, beam ! length ts) \<in> ?f ` set (enumerate 0 beam)"
    by (rule imageI)
  then have "?f (length ts, beam ! length ts) \<in> set (map ?f (enumerate 0 beam))"
    by (simp only: set_map)
  then have "Inl IndexError \<in> set (map ?f (enumerate 0 beam))" by simp
  from collect_Inl_ex[OF this] show ?thesis by (simp only: extend_beam_def)
qed

lemma next_search_beam_narrow:
  assumes u: "unpack_topk topk lp st (Some a) = Inr r" and n: "length beam \<le> length topk"
  shows "next_search_beam beam bs fin e topk lp st (Some a) d =
         next_search_beam beam bs fin e (take (length beam) topk) (take (length beam) lp)
           (narrow (length beam) st) (Some (take (length beam) a)) d"
proof -
  from unpack_topk_Some_Inr[OF u] obtain ks as where r: "r = (topk, lp, ks, Some as)" by blast
  with u have u': "unpack_topk topk lp st (Some a) = Inr (topk, lp, ks, Some as)" by simp
  note v = unpack_topk_narrow[OF u' n]
  show ?thesis
    by (simp only: next_search_beam_def u' v sum.case prod.case option.case extend_beam_take)
qed

lemma next_search_beam_too_long:
  assumes "length topk < length beam"
  shows "\<exists>err. next_search_beam beam bs fin e topk lp st attn d = Inl err"
proof (cases "unpack_topk topk lp st attn")
  case (Inl err)
  then show ?thesis by (simp add: next_search_beam_def)
next
  case (Inr r)
  obtain ts ls ks ao where r: "r = (ts, ls, ks, ao)" by (cases r)
  show ?thesis
  proof (cases ao)
    case None
    with Inr r show ?thesis by (simp add: next_search_beam_def)
  next
    case (Some as)
    with Inr r obtain a where a: "attn = Some a"
      by (cases attn) (auto simp: unpack_topk_def Let_def split: sum.splits)
    from unpack_topk_Some_Inr[OF Inr[unfolded a]] r have "ts = topk" by auto
    with assms have "length ts < length beam" by simp
    from extend_beam_too_long[OF this] obtain err where
      "extend_beam beam ts ls ks as d = Inl err" by blast
    with Inr r Some show ?thesis by (simp add: next_search_beam_def)
  qed
qed


text \<open>
  With \<^verbatim>\<open>attn=None\<close>, the default, \<^verbatim>\<open>next_search_beam\<close> never returns: when
  \<^verbatim>\<open>_unpack_topk\<close> does not raise, unpacking its triple into four names does.
\<close>

lemma next_search_beam_no_attn:
  "\<exists>err. next_search_beam beam bs fin e topk lp st None d = Inl err"
proof (cases "unpack_hists st (length topk)")
  case (Inl err)
  then show ?thesis by (simp add: next_search_beam_def unpack_topk_def)
next
  case (Inr ks)
  then show ?thesis by (simp add: next_search_beam_def unpack_topk_def)
qed

lemmas step_simps = next_search_beam_def unpack_topk_def unpack_hists_def slice_lstm_def
  select_mid_def select_row_def extend_beam_def extend_k_def extend_attn_def tensor_add_def
  enumerate_eq_zip narrow_def


text \<open>
  Claim C3, as the code has it. The claim is that \<^verbatim>\<open>next_search_beam\<close> raises on a
  batch-size mismatch between the beam and the top-k output and never silently ignores
  extra top-k rows. Here the beam has one hypothesis and the top-k batch two rows, and
  the call returns, having used the first row only.
\<close>

theorem next_search_beam_ignores_extra_rows:
  "length [\<lparr>sequence = [0], logprob = 0, hists = LstmHists [[0 :: real]] [[0]] [0],
             attns = [], coverage = None\<rparr>] < length [[5], [7 :: int]] \<and>
   next_search_beam
     [\<lparr>sequence = [0], logprob = 0, hists = LstmHists [[0 :: real]] [[0]] [0],
       attns = [], coverage = None\<rparr>]
     1 [] 9 [[5], [7]] [[- 1], [- 2]] (Tuple3 [[[1], [2]]] [[[3], [4]]] [[5], [6]])
     (Some [[1], [1]]) 1
   = Inr ([], [\<lparr>sequence = [0, 5], logprob = - 1, hists = LstmHists [[1]] [[3]] [5],
                 attns = [[1]], coverage = Some [1]\<rparr>])"
  by (simp add: step_simps eval_simps)


text \<open>
  Claim C3, amended. \<^verbatim>\<open>next_search_beam\<close> makes no check of the batch sizes. When the
  beam is longer than the top-k batch, the call raises (indexing \<^verbatim>\<open>topks[i]\<close>, if nothing
  raised before). When the beam is not longer than the top-k batch and \<^verbatim>\<open>_unpack_topk\<close>
  returns, the rows of \<^verbatim>\<open>topk\<close>, \<^verbatim>\<open>lp\<close>, the state batch and \<^verbatim>\<open>attn\<close> beyond the length of
  the beam are ignored: the call does what it does on the batch cut to the length of the
  beam.
\<close>

theorem next_search_beam_batch_mismatch:
  "(length topk < length beam \<longrightarrow>
      (\<exists>err. next_search_beam beam bs fin e topk lp st attn d = Inl err)) \<and>
   (unpack_topk topk lp st (Some a) = Inr r \<and> length beam \<le> length topk \<longrightarrow>
      next_search_beam beam bs fin e topk lp st (Some a) d =
      next_search_beam beam bs fin e (take (length beam) topk) (take (length beam) lp)
        (narrow (length beam) st) (Some (take (length beam) a)) d)"
proof (intro conjI impI)
  assume "length topk < length beam"
  then show "\<exists>err. next_search_beam beam bs fin e topk lp st attn d = Inl err"
    by (rule next_search_beam_too_long)
next
  assume "unpack_topk topk lp st (Some a) = Inr r \<and> length beam \<le> length topk"
  then have u: "unpack_topk topk lp st (Some a) = Inr r" and n: "length beam \<le> length topk"
    by simp_all
  show "next_search_beam beam bs fin e topk lp st (Some a) d =
      next_search_beam beam bs fin e (take (length beam) topk) (take (length beam) lp)
        (narrow (length beam) st) (Some (take (length beam) a)) d"
    by (rule next_search_beam_narrow[OF u n])
qed


theorem next_search_beam_batch_mismatch_witness:
  "(\<exists>err. next_search_beam
      [\<lparr>sequence = [0], logprob = 0, hists = LstmHists [[0 :: real]] [[0]] [0],
        attns = [], coverage = None\<rparr>,
       \<lparr>sequence = [0], logprob = 0, hists = LstmHists [[0 :: real]] [[0]] [0],
        attns = [], coverage = None\<rparr>]
      1 [] 9 [[5]] [[- 1]] (Tuple3 [[[1]]] [[[3]]] [[5]]) (Some [[1]]) 1 = Inl err) \<and>
   next_search_beam
     [\<lparr>sequence = [0], logprob = 0, hists = LstmHists [[0 :: real]] [[0]] [0],
       attns = [], coverage = None\<rparr>]
     1 [] 9 [[5], [7]] [[- 1], [- 2]] (Tuple3 [[[1], [2]]] [[[3], [4]]] [[5], [6]])
     (Some [[1], [1]]) 1
   = next_search_beam
     [\<lparr>sequence = [0], logprob = 0, hists = LstmHists [[0 :: real]] [[0]] [0],
       attns = [], coverage = None\<rparr>]
     1 [] 9 [[5]] [[- 1]] (Tuple3 [[[1]]] [[[3]]] [[5]]) (Some [[1]]) 1"
proof -
  let ?h = "\<lparr>sequence = [0], logprob = 0, hists = LstmHists [[0 :: real]] [[0]] [0],
        attns = [], coverage = None\<rparr>"
  let ?st = "Tuple3 [[[1 :: real], [2]]] [[[3], [4]]] [[5], [6]]"
  have u: "unpack_topk [[5], [7]] [[- 1], [- 2]] ?st (Some [[1], [1]])
             = Inr ([[5], [7]], [[- 1], [- 2]],
                    [LstmHists [[1]] [[3]] [5], LstmHists [[2]] [[4]] [6]], Some [[1], [1]])"
    by (simp add: step_simps upt_rec)
  have l1: "length [[5 :: int]] < length [?h, ?h]" by simp
  have l2: "length [?h] \<le> length [[5], [7 :: int]]" by simp
  note t1 = next_search_beam_batch_mismatch
      [where topk = "[[5]]" and beam = "[?h, ?h]" and bs = 1 and fin = "[]" and e = 9
         and lp = "[[- 1]]" and st = "Tuple3 [[[1]]] [[[3]]] [[5]]" and attn = "Some [[1]]"
         and d = 1, THEN conjunct1, rule_format, OF l1]
  note t2 = next_search_beam_batch_mismatch
      [where topk = "[[5], [7]]" and beam = "[?h]" and bs = 1 and fin = "[]" and e = 9
         and lp = "[[- 1], [- 2]]" and st = ?st and a = "[[1], [1]]" and d = 1,
       THEN conjunct2, rule_format, OF conjI, OF u l2]
  have n: "narrow (length [?h]) ?st = Tuple3 [[[1]]] [[[3]]] [[5]]"
    by (simp add: narrow_def)
  from t2 have "next_search_beam [?h] 1 [] 9 [[5], [7]] [[- 1], [- 2]] ?st (Some [[1], [1]]) 1
     = next_search_beam [?h] 1 [] 9 [[5]] [[- 1]] (Tuple3 [[[1]]] [[[3]]] [[5]]) (Some [[1]]) 1"
    by (simp only: n) simp
  with t1 show ?thesis by (intro conjI)
qed

end
